theory Spec2Isabelle
  imports Main "HOL-Library.Sublist" "HOL-Library.Multiset"
begin

section \<open>Errors and the storage interface\<close>

text \<open>
  A Go \<^verbatim>\<open>error\<close> is either nil or an error value, so it is an \<open>error option\<close> here.
  The three sentinel values that the code compares by identity are constructors of their
  own; every other error value is \<open>errOther\<close> with its message.
\<close>

datatype error = errVolumeExists | errDiskNotFound | errFileNotFound | errOther string

text \<open>
  \<^verbatim>\<open>StorageAPI\<close> is an interface; only the three methods that \<^verbatim>\<open>initObjectLayer\<close> and
  \<^verbatim>\<open>cleanupDir\<close> call are kept. A disk is stateful: each method reads the disk's state
  \<open>'s\<close> and returns the new one beside its Go results. \<^verbatim>\<open>ListDir\<close> returns the Go pair
  \<^verbatim>\<open>(entries, err)\<close>.
\<close>

record 's StorageAPI =
  MakeVol :: "string \<Rightarrow> 's \<Rightarrow> error option \<times> 's"
  ListDir :: "string \<Rightarrow> string \<Rightarrow> 's \<Rightarrow> (string list \<times> error option) \<times> 's"
  DeleteFile :: "string \<Rightarrow> string \<Rightarrow> 's \<Rightarrow> error option \<times> 's"

text \<open>
  The calls that a cleanup issues on a disk, in order, each with its volume, its path
  and what the disk answered. The trace is what claims about "never invoked on",
  "every call targets" and "the set of deleted paths" are stated on.
\<close>

datatype call =
    ListDirCall string string "string list" "error option"
  | DeleteFileCall string string "error option"

section \<open>Path helpers\<close>

text \<open>Go's \<^verbatim>\<open>strings.HasSuffix(s, suffix)\<close>:
  \<^verbatim>\<open>len(s) >= len(suffix) && s[len(s)-len(suffix):] == suffix\<close>.\<close>

definition hasSuffix :: "string \<Rightarrow> string \<Rightarrow> bool" where
  "hasSuffix s suff \<longleftrightarrow> length suff \<le> length s \<and> drop (length s - length suff) s = suff"

text \<open>Modelled from the spec: the constant \<^verbatim>\<open>slashSeparator\<close> is not declared under src/;
  the spec calls it the path separator and writes its paths \<^verbatim>\<open>a/\<close>, \<^verbatim>\<open>a/c/d\<close>.\<close>

definition slashSeparator :: string where
  "slashSeparator = ''/''"

text \<open>Modelled from the spec: \<^verbatim>\<open>retainSlash\<close> is not under src/; the spec says the cleanup
  root is normalised "to always end in the path separator".\<close>

definition retainSlash :: "string \<Rightarrow> string" where
  "retainSlash s = (if hasSuffix s slashSeparator then s else s @ slashSeparator)"

text \<open>Modelled from the spec: \<^verbatim>\<open>pathJoin\<close> is not under src/; the spec writes
  \<^verbatim>\<open>join(currentPath, entry)\<close> and its example joins \<^verbatim>\<open>a/\<close> with \<^verbatim>\<open>b\<close> to \<^verbatim>\<open>a/b\<close> and with
  \<^verbatim>\<open>c/\<close> to \<^verbatim>\<open>a/c/\<close>: the elements are put one after the other, separated by one
  separator, and a trailing separator of the last element stays. \<^verbatim>\<open>cleanupDir\<close> calls it
  on one element, and on a directory path, which ends with the separator, followed by
  an entry of its listing; the spec says nothing about any cleaning of the joined path,
  and none is modelled.\<close>

fun pathJoin :: "string list \<Rightarrow> string" where
  "pathJoin [] = []"
| "pathJoin [elem] = elem"
| "pathJoin (elem # elems) = retainSlash elem @ pathJoin elems"

section \<open>cleanupDir\<close>

text \<open>
  The loop of \<^verbatim>\<open>delFunc\<close> over the entries of one directory: it stops at the first entry
  whose recursive call returns an error and returns that error. \<open>None\<close> means that a
  recursive call did not return. The calls of the entries are appended in order.
\<close>

fun delEntries ::
  "(string \<Rightarrow> 's \<Rightarrow> (error option \<times> 's \<times> call list) option) \<Rightarrow> string list \<Rightarrow> 's
    \<Rightarrow> (error option \<times> 's \<times> call list) option" where
  "delEntries f [] \<sigma> = Some (None, \<sigma>, [])"
| "delEntries f (p # ps) \<sigma> =
     (case f p \<sigma> of
        None \<Rightarrow> None
      | Some (Some err, \<sigma>', cs) \<Rightarrow> Some (Some err, \<sigma>', cs)
      | Some (None, \<sigma>', cs) \<Rightarrow>
          (case delEntries f ps \<sigma>' of
             None \<Rightarrow> None
           | Some (r, \<sigma>'', cs') \<Rightarrow> Some (r, \<sigma>'', cs @ cs')))"

text \<open>
  The closure \<^verbatim>\<open>delFunc\<close>. A disk may describe a tree without end, on which the Go
  recursion never returns; the first argument bounds the depth of the recursion, and
  \<open>None\<close> is "has not returned within that depth". The result is the returned error,
  the disk's state afterwards and the calls issued.
\<close>

primrec delFunc ::
  "nat \<Rightarrow> 's StorageAPI \<Rightarrow> string \<Rightarrow> string \<Rightarrow> 's \<Rightarrow> (error option \<times> 's \<times> call list) option" where
  "delFunc 0 storage volume entryPath \<sigma> = None"
| "delFunc (Suc fuel) storage volume entryPath \<sigma> =
     (if \<not> hasSuffix entryPath slashSeparator then
        (case DeleteFile storage volume entryPath \<sigma> of
           (err, \<sigma>') \<Rightarrow> Some (err, \<sigma>', [DeleteFileCall volume entryPath err]))
      else
        (case ListDir storage volume entryPath \<sigma> of
           ((entries, err), \<sigma>') \<Rightarrow>
             if err \<noteq> None then
               (if err = Some errFileNotFound
                then Some (None, \<sigma>', [ListDirCall volume entryPath entries err])
                else Some (err, \<sigma>', [ListDirCall volume entryPath entries err]))
             else
               (case delEntries (\<lambda>entry. delFunc fuel storage volume (pathJoin [entryPath, entry]))
                       entries \<sigma>' of
                  None \<Rightarrow> None
                | Some (r, \<sigma>'', cs) \<Rightarrow>
                    Some (r, \<sigma>'', ListDirCall volume entryPath entries err # cs))))"

definition cleanupDir ::
  "nat \<Rightarrow> 's StorageAPI \<Rightarrow> string \<Rightarrow> string \<Rightarrow> 's \<Rightarrow> (error option \<times> 's \<times> call list) option" where
  "cleanupDir fuel storage volume dirPath \<sigma> =
     delFunc fuel storage volume (retainSlash (pathJoin [dirPath])) \<sigma>"

section \<open>initObjectLayer\<close>

text \<open>Modelled from the spec: \<^verbatim>\<open>toObjectErr\<close> is not under src/; the spec's Error
  Translator wraps a backend error with its volume and path context and keeps its kind.\<close>

datatype object_error = ObjectError error string string

definition toObjectErr :: "error \<Rightarrow> string \<Rightarrow> string \<Rightarrow> object_error" where
  "toObjectErr err volume path = ObjectError err volume path"

text \<open>
  The body of the goroutine started for one disk; its result is the value it leaves in
  \<^verbatim>\<open>errs[index]\<close>, with the disk's state after it and the calls of its cleanup (none when
  the cleanup is not reached). The names \<^verbatim>\<open>minioMetaBucket\<close> and \<^verbatim>\<open>tmpMetaPrefix\<close> are
  constants declared outside src/ and are parameters here.
\<close>

definition initDisk ::
  "nat \<Rightarrow> string \<Rightarrow> string \<Rightarrow> 's StorageAPI \<Rightarrow> 's \<Rightarrow> (error option \<times> 's \<times> call list) option" where
  "initDisk fuel minioMetaBucket tmpMetaPrefix disk \<sigma> =
     (case MakeVol disk minioMetaBucket \<sigma> of
        (err, \<sigma>') \<Rightarrow>
          if err \<noteq> None \<and> err \<noteq> Some errVolumeExists \<and> err \<noteq> Some errDiskNotFound then
            Some (err, \<sigma>', [])
          else
            cleanupDir fuel disk minioMetaBucket tmpMetaPrefix \<sigma>')"

text \<open>\<^verbatim>\<open>wg.Wait()\<close>: the coordinator goes on only when every goroutine has returned.\<close>

fun waitAll :: "'a option list \<Rightarrow> 'a list option" where
  "waitAll [] = Some []"
| "waitAll (None # rs) = None"
| "waitAll (Some r # rs) = (case waitAll rs of None \<Rightarrow> None | Some xs \<Rightarrow> Some (r # xs))"

text \<open>The loop over \<^verbatim>\<open>errs\<close> after the wait: "Return upon first error."\<close>

fun firstError :: "string \<Rightarrow> string \<Rightarrow> error option list \<Rightarrow> object_error option" where
  "firstError minioMetaBucket tmpMetaPrefix [] = None"
| "firstError minioMetaBucket tmpMetaPrefix (None # errs) =
     firstError minioMetaBucket tmpMetaPrefix errs"
| "firstError minioMetaBucket tmpMetaPrefix (Some err # errs) =
     Some (toObjectErr err minioMetaBucket tmpMetaPrefix)"

text \<open>
  A disk is its interface value with its state. The goroutines work on disks that share
  no state and each writes its own slot of \<^verbatim>\<open>errs\<close>, so the outcome of the fan-out is the
  list of the outcomes of the units, unit by unit. \<open>runUnits\<close> is \<^verbatim>\<open>errs\<close> (with the
  disks' final states and calls) after \<^verbatim>\<open>wg.Wait()\<close>.
\<close>

definition runUnits ::
  "nat \<Rightarrow> string \<Rightarrow> string \<Rightarrow> ('s StorageAPI \<times> 's) list \<Rightarrow> (error option \<times> 's \<times> call list) list option" where
  "runUnits fuel minioMetaBucket tmpMetaPrefix storageDisks =
     waitAll (map (\<lambda>(disk, \<sigma>). initDisk fuel minioMetaBucket tmpMetaPrefix disk \<sigma>) storageDisks)"

definition initObjectLayer ::
  "nat \<Rightarrow> string \<Rightarrow> string \<Rightarrow> ('s StorageAPI \<times> 's) list
    \<Rightarrow> (object_error option \<times> ('s \<times> call list) list) option" where
  "initObjectLayer fuel minioMetaBucket tmpMetaPrefix storageDisks =
     (case runUnits fuel minioMetaBucket tmpMetaPrefix storageDisks of
        None \<Rightarrow> None
      | Some outs \<Rightarrow>
          Some (firstError minioMetaBucket tmpMetaPrefix (map fst outs), map snd outs))"

section \<open>Test doubles\<close>

text \<open>
  An in-memory disk: the volumes it has and the files it holds, each file a volume and
  a path. A directory exists as long as some file lies under it, and its listing is
  computed from the files: the next path segment of each, with the separator kept
  when more follows.
\<close>

record mem =
  vols :: "string list"
  files :: "(string \<times> string) list"

fun firstSegment :: "string \<Rightarrow> string" where
  "firstSegment [] = []"
| "firstSegment (c # cs) = (if c = CHR ''/'' then [c] else c # firstSegment cs)"

definition memListDir :: "string \<Rightarrow> string \<Rightarrow> mem \<Rightarrow> (string list \<times> error option) \<times> mem" where
  "memListDir volume dirPath \<sigma> =
     (let rests = map (\<lambda>(v, f). drop (length dirPath) f)
                    (filter (\<lambda>(v, f). v = volume \<and> prefix dirPath f \<and> f \<noteq> dirPath) (files \<sigma>))
      in if rests = [] then (([], Some errFileNotFound), \<sigma>)
         else ((remdups (map firstSegment rests), None), \<sigma>))"

definition memDisk :: "mem StorageAPI" where
  "memDisk = \<lparr>
     MakeVol = (\<lambda>volume \<sigma>.
       if volume \<in> set (vols \<sigma>) then (Some errVolumeExists, \<sigma>)
       else (None, \<sigma>\<lparr>vols := volume # vols \<sigma>\<rparr>)),
     ListDir = memListDir,
     DeleteFile = (\<lambda>volume path \<sigma>.
       if (volume, path) \<in> set (files \<sigma>)
       then (None, \<sigma>\<lparr>files := removeAll (volume, path) (files \<sigma>)\<rparr>)
       else (Some errFileNotFound, \<sigma>)) \<rparr>"

text \<open>A disk whose volume creation fails with the given error; the rest is \<open>memDisk\<close>.\<close>

definition failingDisk :: "error \<Rightarrow> mem StorageAPI" where
  "failingDisk err = memDisk\<lparr>MakeVol := (\<lambda>volume \<sigma>. (Some err, \<sigma>))\<rparr>"

text \<open>A disk that answers from fixed tables, whatever has happened before.\<close>

definition staticDisk ::
  "(string \<Rightarrow> string \<Rightarrow> string list \<times> error option) \<Rightarrow> (string \<Rightarrow> string \<Rightarrow> error option)
    \<Rightarrow> unit StorageAPI" where
  "staticDisk lst del = \<lparr>
     MakeVol = (\<lambda>volume \<sigma>. (None, \<sigma>)),
     ListDir = (\<lambda>volume path \<sigma>. (lst volume path, \<sigma>)),
     DeleteFile = (\<lambda>volume path \<sigma>. (del volume path, \<sigma>)) \<rparr>"

text \<open>A disk that lists a leaf which is no longer there when it is deleted.\<close>

definition racyDisk :: "unit StorageAPI" where
  "racyDisk = staticDisk
     (\<lambda>volume path. if path = ''tmp/'' then ([''part.1''], None) else ([], Some errFileNotFound))
     (\<lambda>volume path. Some errFileNotFound)"

text \<open>Lists of disks for the fan-out.\<close>

definition sixDisks :: "(mem StorageAPI \<times> mem) list" where
  "sixDisks =
     [(memDisk, \<lparr>vols = [''.minio.sys''], files = []\<rparr>),
      (memDisk, \<lparr>vols = [], files = []\<rparr>),
      (failingDisk (errOther ''two''), \<lparr>vols = [], files = []\<rparr>),
      (memDisk, \<lparr>vols = [''.minio.sys''], files = [(''.minio.sys'', ''tmp/x'')]\<rparr>),
      (failingDisk errDiskNotFound, \<lparr>vols = [], files = []\<rparr>),
      (failingDisk (errOther ''five''), \<lparr>vols = [], files = []\<rparr>)]"

definition threeDisks :: "(mem StorageAPI \<times> mem) list" where
  "threeDisks =
     [(memDisk, \<lparr>vols = [''.minio.sys''], files = [(''.minio.sys'', ''tmp/x'')]\<rparr>),
      (failingDisk (errOther ''input/output error''), \<lparr>vols = [], files = [(''.minio.sys'', ''tmp/y'')]\<rparr>),
      (memDisk, \<lparr>vols = [], files = []\<rparr>)]"

text \<open>A disk with a directory that is gone and a directory that cannot be listed.\<close>

definition lockedDirDisk :: "unit StorageAPI" where
  "lockedDirDisk = staticDisk
     (\<lambda>volume path.
        if path = ''tmp/'' then ([''gone/'', ''a'', ''locked/'', ''z''], None)
        else if path = ''tmp/locked/'' then ([], Some (errOther ''permission denied''))
        else ([], Some errFileNotFound))
     (\<lambda>volume path. None)"

section \<open>Notions the claims are stated with\<close>

text \<open>The paths of the DeleteFile calls that the disk answered with nil: the leaves deleted.\<close>

fun deletedPaths :: "call list \<Rightarrow> string list" where
  "deletedPaths [] = []"
| "deletedPaths (DeleteFileCall volume path None # cs) = path # deletedPaths cs"
| "deletedPaths (c # cs) = deletedPaths cs"

text \<open>The error with which a call makes \<^verbatim>\<open>delFunc\<close> return at once: every error of
  DeleteFile, and every error of ListDir but not-found.\<close>

fun failure :: "call \<Rightarrow> error option" where
  "failure (DeleteFileCall volume path err) = err"
| "failure (ListDirCall volume path entries err) =
     (if err = Some errFileNotFound then None else err)"

text \<open>A call stays inside a subtree: it is on the given volume, and on a path that
  extends the root.\<close>

fun inSubtree :: "string \<Rightarrow> string \<Rightarrow> call \<Rightarrow> bool" where
  "inSubtree volume root (ListDirCall v path entries err) \<longleftrightarrow> v = volume \<and> prefix root path"
| "inSubtree volume root (DeleteFileCall v path err) \<longleftrightarrow> v = volume \<and> prefix root path"

text \<open>
  The directory tree that a disk shows on a volume, as the relation between a path
  that \<^verbatim>\<open>delFunc\<close> recurses into and the directory whose listing holds its entry, over the
  states that satisfy \<open>I\<close>. The tree is finite in depth when the relation is well-founded.
\<close>

definition childRel :: "'s StorageAPI \<Rightarrow> string \<Rightarrow> ('s \<Rightarrow> bool) \<Rightarrow> (string \<times> string) set" where
  "childRel storage volume I =
     {(child, dir). \<exists>\<sigma> entries \<sigma>' entry.
        I \<sigma> \<and> hasSuffix dir slashSeparator \<and>
        ListDir storage volume dir \<sigma> = ((entries, None), \<sigma>') \<and>
        entry \<in> set entries \<and> child = pathJoin [dir, entry]}"

text \<open>The states that satisfy \<open>I\<close> are closed under the calls of a cleanup.\<close>

definition preserves :: "'s StorageAPI \<Rightarrow> ('s \<Rightarrow> bool) \<Rightarrow> bool" where
  "preserves storage I \<longleftrightarrow>
     (\<forall>volume path \<sigma>. I \<sigma> \<longrightarrow>
        I (snd (ListDir storage volume path \<sigma>)) \<and> I (snd (DeleteFile storage volume path \<sigma>)))"

text \<open>A path lies in the subtree at \<open>c\<close>: under \<open>c\<close> when \<open>c\<close> is a directory path, \<open>c\<close>
  itself when it is a leaf path.\<close>

definition inside :: "string \<Rightarrow> string \<Rightarrow> bool" where
  "inside c q \<longleftrightarrow> (if hasSuffix c slashSeparator then prefix c q else q = c)"

text \<open>The second disk is the first with the entries of each listing permuted: DeleteFile
  is the same function, and ListDir has the same effect on the state and returns the
  same error and the same entries in some order, which may depend on everything.\<close>

definition permutedListing :: "'s StorageAPI \<Rightarrow> 's StorageAPI \<Rightarrow> bool" where
  "permutedListing A B \<longleftrightarrow>
     (\<forall>volume path \<sigma>.
        DeleteFile B volume path \<sigma> = DeleteFile A volume path \<sigma> \<and>
        snd (ListDir B volume path \<sigma>) = snd (ListDir A volume path \<sigma>) \<and>
        snd (fst (ListDir B volume path \<sigma>)) = snd (fst (ListDir A volume path \<sigma>)) \<and>
        mset (fst (fst (ListDir B volume path \<sigma>))) = mset (fst (fst (ListDir A volume path \<sigma>))))"

text \<open>
  A disk behaves as a directory tree on a volume, \<open>view c \<sigma>\<close> being what the state \<open>\<sigma>\<close>
  holds of the subtree at \<open>c\<close>:
  \<^item> what a subtree holds fixes what each subtree inside it holds, what DeleteFile answers
    on a leaf path inside it and what ListDir answers on a directory path inside it;
  \<^item> a listing changes no subtree;
  \<^item> a deletion changes no subtree that the deleted path is not in;
  \<^item> a listing names no entry twice, and two entries of it are two subtrees with no
    path in common.
  The state changes with the deletions; nothing is said about what a deletion does to the
  subtrees around the deleted path.
\<close>

definition treeLike :: "'s StorageAPI \<Rightarrow> string \<Rightarrow> (string \<Rightarrow> 's \<Rightarrow> 'w) \<Rightarrow> bool" where
  "treeLike A volume view \<longleftrightarrow>
     (\<forall>c q \<sigma> \<tau>. inside c q \<and> view c \<sigma> = view c \<tau> \<longrightarrow>
        view q \<sigma> = view q \<tau> \<and>
        (\<not> hasSuffix q slashSeparator \<longrightarrow>
           fst (DeleteFile A volume q \<sigma>) = fst (DeleteFile A volume q \<tau>)) \<and>
        (hasSuffix q slashSeparator \<longrightarrow>
           fst (ListDir A volume q \<sigma>) = fst (ListDir A volume q \<tau>))) \<and>
     (\<forall>c q \<sigma>. view c (snd (ListDir A volume q \<sigma>)) = view c \<sigma>) \<and>
     (\<forall>c q \<sigma>. \<not> inside c q \<longrightarrow> view c (snd (DeleteFile A volume q \<sigma>)) = view c \<sigma>) \<and>
     (\<forall>q \<sigma> entries \<sigma>'.
        hasSuffix q slashSeparator \<and> ListDir A volume q \<sigma> = ((entries, None), \<sigma>') \<longrightarrow>
        distinct entries \<and>
        (\<forall>e\<in>set entries. \<forall>e'\<in>set entries. e \<noteq> e' \<longrightarrow>
           (\<forall>p. inside (pathJoin [q, e]) p \<longrightarrow> \<not> inside (pathJoin [q, e']) p)))"

text \<open>What the in-memory disk holds of a subtree: its files there, in their order.\<close>

definition memView :: "string \<Rightarrow> string \<Rightarrow> mem \<Rightarrow> (string \<times> string) list" where
  "memView volume c \<sigma> = filter (\<lambda>(v, f). v = volume \<and> inside c f) (files \<sigma>)"

text \<open>The in-memory disk with every listing reversed.\<close>

definition reversedDisk :: "mem StorageAPI" where
  "reversedDisk = memDisk\<lparr>ListDir :=
     (\<lambda>volume dirPath \<sigma>.
        case memListDir volume dirPath \<sigma> of ((entries, err), \<sigma>') \<Rightarrow> ((rev entries, err), \<sigma>'))\<rparr>"

section \<open>Basic facts\<close>

lemma hasSuffix_iff_suffix: "hasSuffix s suff \<longleftrightarrow> suffix suff s"
proof
  assume "hasSuffix s suff"
  then have "s = take (length s - length suff) s @ suff"
    unfolding hasSuffix_def by (metis append_take_drop_id)
  then show "suffix suff s"
    unfolding suffix_def by blast
next
  assume "suffix suff s"
  then obtain zs where "s = zs @ suff"
    unfolding suffix_def by blast
  then show "hasSuffix s suff"
    unfolding hasSuffix_def by simp
qed

lemma hasSuffix_retainSlash: "hasSuffix (retainSlash s) slashSeparator"
  by (simp add: retainSlash_def hasSuffix_iff_suffix suffix_def)

section \<open>Claims about cleanupDir\<close>

text \<open>
  C2. Cleanup succeeds when the listing of the root answers not-found: the subtree is
  not there (never created, or removed by an earlier run), and cleanupDir returns nil
  after that one listing, for every disk. The same holds on a root that is there and
  empty (the listing returns no entry and no error). So a second run over a subtree
  that the first run has emptied or removed returns nil as well.
\<close>

theorem cleanupDir_root_not_found:
  assumes "ListDir storage volume (retainSlash (pathJoin [dirPath])) \<sigma> = ((entries, err), \<sigma>')"
    and "err = Some errFileNotFound \<or> (err = None \<and> entries = [])"
  shows "cleanupDir (Suc fuel) storage volume dirPath \<sigma> =
           Some (None, \<sigma>', [ListDirCall volume (retainSlash (pathJoin [dirPath])) entries err])"
  using assms by (auto simp: cleanupDir_def hasSuffix_retainSlash)

text \<open>On the in-memory disk: a first run removes the one temporary file, after which
  the root is gone and the second run returns nil from its first listing.\<close>

theorem cleanupDir_root_not_found_witness:
  "cleanupDir 3 memDisk ''.minio.sys'' ''tmp''
       \<lparr>vols = [''.minio.sys''], files = [(''.minio.sys'', ''tmp/x/part.1'')]\<rparr>
     = Some (None, \<lparr>vols = [''.minio.sys''], files = []\<rparr>,
         [ListDirCall ''.minio.sys'' ''tmp/'' [''x/''] None,
          ListDirCall ''.minio.sys'' ''tmp/x/'' [''part.1''] None,
          DeleteFileCall ''.minio.sys'' ''tmp/x/part.1'' None])
   \<and> ListDir memDisk ''.minio.sys'' (retainSlash (pathJoin [''tmp'']))
        \<lparr>vols = [''.minio.sys''], files = []\<rparr>
     = (([], Some errFileNotFound), \<lparr>vols = [''.minio.sys''], files = []\<rparr>)
   \<and> cleanupDir (Suc 0) memDisk ''.minio.sys'' ''tmp'' \<lparr>vols = [''.minio.sys''], files = []\<rparr>
     = Some (None, \<lparr>vols = [''.minio.sys''], files = []\<rparr>,
         [ListDirCall ''.minio.sys'' (retainSlash (pathJoin [''tmp''])) [] (Some errFileNotFound)])"
proof -
  have first: "cleanupDir 3 memDisk ''.minio.sys'' ''tmp''
       \<lparr>vols = [''.minio.sys''], files = [(''.minio.sys'', ''tmp/x/part.1'')]\<rparr>
     = Some (None, \<lparr>vols = [''.minio.sys''], files = []\<rparr>,
         [ListDirCall ''.minio.sys'' ''tmp/'' [''x/''] None,
          ListDirCall ''.minio.sys'' ''tmp/x/'' [''part.1''] None,
          DeleteFileCall ''.minio.sys'' ''tmp/x/part.1'' None])"
    by code_simp
  have gone: "ListDir memDisk ''.minio.sys'' (retainSlash (pathJoin [''tmp'']))
        \<lparr>vols = [''.minio.sys''], files = []\<rparr>
     = (([], Some errFileNotFound), \<lparr>vols = [''.minio.sys''], files = []\<rparr>)"
    by code_simp
  from first gone cleanupDir_root_not_found [OF gone, of 0] show ?thesis
    by simp
qed

section \<open>Claims about initObjectLayer\<close>

lemma waitAll_Some_length: "waitAll rs = Some xs \<Longrightarrow> length xs = length rs"
  by (induction rs arbitrary: xs rule: waitAll.induct) (auto split: option.splits)

lemma waitAll_Some_nth: "waitAll rs = Some xs \<Longrightarrow> i < length rs \<Longrightarrow> rs ! i = Some (xs ! i)"
proof (induction rs arbitrary: xs i rule: waitAll.induct)
  case (3 r rs)
  then show ?case by (cases i) (auto split: option.splits)
qed auto

lemma waitAll_all_Some: "\<forall>r\<in>set rs. r \<noteq> None \<Longrightarrow> \<exists>xs. waitAll rs = Some xs"
  by (induction rs rule: waitAll.induct) auto

lemma runUnits_nth:
  assumes "runUnits fuel mb tp disks = Some outs"
  shows "length outs = length disks"
    and "i < length disks \<Longrightarrow> initDisk fuel mb tp (fst (disks ! i)) (snd (disks ! i)) = Some (outs ! i)"
proof -
  show "length outs = length disks"
    using assms waitAll_Some_length [of "map (\<lambda>(disk, \<sigma>). initDisk fuel mb tp disk \<sigma>) disks" outs]
    unfolding runUnits_def by simp
  assume "i < length disks"
  with assms waitAll_Some_nth [of "map (\<lambda>(disk, \<sigma>). initDisk fuel mb tp disk \<sigma>) disks" outs i]
  show "initDisk fuel mb tp (fst (disks ! i)) (snd (disks ! i)) = Some (outs ! i)"
    unfolding runUnits_def by (simp add: case_prod_beta)
qed

lemma firstError_None: "firstError mb tp errs = None \<longleftrightarrow> (\<forall>e\<in>set errs. e = None)"
  by (induction mb tp errs rule: firstError.induct) auto

lemma firstError_first:
  "i < length errs \<Longrightarrow> errs ! i = Some e \<Longrightarrow> \<forall>j<i. errs ! j = None
    \<Longrightarrow> firstError mb tp errs = Some (toObjectErr e mb tp)"
proof (induction mb tp errs arbitrary: i rule: firstError.induct)
  case (1 mb tp)
  then show ?case by simp
next
  case (2 mb tp errs)
  from "2.prems" obtain k where k: "i = Suc k" by (cases i) auto
  from "2.prems"(1,2) k have a: "k < length errs" "errs ! k = Some e"
    by auto
  have b: "\<forall>j<k. errs ! j = None"
  proof (intro allI impI)
    fix j assume "j < k"
    then have "Suc j < i" using k by simp
    with "2.prems"(3) have "(None # errs) ! Suc j = None" by blast
    then show "errs ! j = None" by simp
  qed
  from "2.IH" [OF a b] show ?case by simp
next
  case (3 mb tp err errs)
  have "i = 0"
  proof (rule ccontr)
    assume "i \<noteq> 0"
    then have "0 < i" by simp
    with "3.prems"(3) have "(Some err # errs) ! 0 = None" by blast
    then show False by simp
  qed
  with "3.prems" show ?case by simp
qed

text \<open>
  C3. The unit of one disk. When MakeVol on the metadata volume returns nil, the
  volume-exists error or the disk-not-found error, the unit goes on to cleanupDir on
  the state MakeVol left, and what it records in its slot is what cleanupDir returns:
  nothing is recorded for the MakeVol step. When MakeVol returns any other error, the
  unit records that error and ends with no call of the cleanup issued.
\<close>

theorem initDisk_MakeVol:
  assumes "MakeVol disk minioMetaBucket \<sigma> = (err, \<sigma>')"
  shows "(err \<in> {None, Some errVolumeExists, Some errDiskNotFound} \<longrightarrow>
            initDisk fuel minioMetaBucket tmpMetaPrefix disk \<sigma> =
              cleanupDir fuel disk minioMetaBucket tmpMetaPrefix \<sigma>')
       \<and> (err \<notin> {None, Some errVolumeExists, Some errDiskNotFound} \<longrightarrow>
            initDisk fuel minioMetaBucket tmpMetaPrefix disk \<sigma> = Some (err, \<sigma>', []))"
  using assms by (auto simp: initDisk_def)

text \<open>A volume that exists, a disk that is not found and a disk that is full.\<close>

theorem initDisk_MakeVol_witness:
  "MakeVol memDisk ''.minio.sys'' \<lparr>vols = [''.minio.sys''], files = [(''.minio.sys'', ''tmp/x'')]\<rparr>
     = (Some errVolumeExists, \<lparr>vols = [''.minio.sys''], files = [(''.minio.sys'', ''tmp/x'')]\<rparr>)
   \<and> initDisk 2 ''.minio.sys'' ''tmp'' memDisk
        \<lparr>vols = [''.minio.sys''], files = [(''.minio.sys'', ''tmp/x'')]\<rparr>
     = Some (None, \<lparr>vols = [''.minio.sys''], files = []\<rparr>,
         [ListDirCall ''.minio.sys'' ''tmp/'' [''x''] None,
          DeleteFileCall ''.minio.sys'' ''tmp/x'' None])
   \<and> initDisk 2 ''.minio.sys'' ''tmp'' (failingDisk errDiskNotFound)
        \<lparr>vols = [], files = [(''.minio.sys'', ''tmp/x'')]\<rparr>
     = Some (None, \<lparr>vols = [], files = []\<rparr>,
         [ListDirCall ''.minio.sys'' ''tmp/'' [''x''] None,
          DeleteFileCall ''.minio.sys'' ''tmp/x'' None])
   \<and> initDisk 2 ''.minio.sys'' ''tmp'' (failingDisk (errOther ''disk full''))
        \<lparr>vols = [], files = [(''.minio.sys'', ''tmp/x'')]\<rparr>
     = Some (Some (errOther ''disk full''),
         \<lparr>vols = [], files = [(''.minio.sys'', ''tmp/x'')]\<rparr>, [])"
proof -
  let ?\<sigma> = "\<lparr>vols = [''.minio.sys''], files = [(''.minio.sys'', ''tmp/x'')]\<rparr>"
  let ?\<tau> = "\<lparr>vols = [], files = [(''.minio.sys'', ''tmp/x'')]\<rparr>"
  have mk1: "MakeVol memDisk ''.minio.sys'' ?\<sigma> = (Some errVolumeExists, ?\<sigma>)"
    by code_simp
  have mk2: "MakeVol (failingDisk errDiskNotFound) ''.minio.sys'' ?\<tau> = (Some errDiskNotFound, ?\<tau>)"
    by code_simp
  have mk3: "MakeVol (failingDisk (errOther ''disk full'')) ''.minio.sys'' ?\<tau>
               = (Some (errOther ''disk full''), ?\<tau>)"
    by code_simp
  have c1: "cleanupDir 2 memDisk ''.minio.sys'' ''tmp'' ?\<sigma>
     = Some (None, \<lparr>vols = [''.minio.sys''], files = []\<rparr>,
         [ListDirCall ''.minio.sys'' ''tmp/'' [''x''] None,
          DeleteFileCall ''.minio.sys'' ''tmp/x'' None])"
    by code_simp
  have c2: "cleanupDir 2 (failingDisk errDiskNotFound) ''.minio.sys'' ''tmp'' ?\<tau>
     = Some (None, \<lparr>vols = [], files = []\<rparr>,
         [ListDirCall ''.minio.sys'' ''tmp/'' [''x''] None,
          DeleteFileCall ''.minio.sys'' ''tmp/x'' None])"
    by code_simp
  from initDisk_MakeVol [OF mk1, of 2 "''tmp''"] c1
  have u1: "initDisk 2 ''.minio.sys'' ''tmp'' memDisk ?\<sigma>
     = Some (None, \<lparr>vols = [''.minio.sys''], files = []\<rparr>,
         [ListDirCall ''.minio.sys'' ''tmp/'' [''x''] None,
          DeleteFileCall ''.minio.sys'' ''tmp/x'' None])"
    by simp
  from initDisk_MakeVol [OF mk2, of 2 "''tmp''"] c2
  have u2: "initDisk 2 ''.minio.sys'' ''tmp'' (failingDisk errDiskNotFound) ?\<tau>
     = Some (None, \<lparr>vols = [], files = []\<rparr>,
         [ListDirCall ''.minio.sys'' ''tmp/'' [''x''] None,
          DeleteFileCall ''.minio.sys'' ''tmp/x'' None])"
    by simp
  from initDisk_MakeVol [OF mk3, of 2 "''tmp''"]
  have u3: "initDisk 2 ''.minio.sys'' ''tmp'' (failingDisk (errOther ''disk full'')) ?\<tau>
     = Some (Some (errOther ''disk full''), ?\<tau>, [])"
    by simp
  from mk1 u1 u2 u3 show ?thesis by (intro conjI)
qed

text \<open>
  C1. Once every unit has returned, with \<open>outs\<close> the recorded outcomes in the order of
  the disks, initObjectLayer returns the first recorded error in that order, translated
  by toObjectErr with the metadata volume and the temporary prefix; it returns nil if
  and only if every recorded outcome is nil.
\<close>

theorem initObjectLayer_first_error:
  assumes "runUnits fuel minioMetaBucket tmpMetaPrefix storageDisks = Some outs"
  shows "\<exists>r. initObjectLayer fuel minioMetaBucket tmpMetaPrefix storageDisks = Some (r, map snd outs)
           \<and> length outs = length storageDisks
           \<and> (r = None \<longleftrightarrow> (\<forall>i<length outs. fst (outs ! i) = None))
           \<and> (\<forall>i e. i < length outs \<and> fst (outs ! i) = Some e \<and> (\<forall>j<i. fst (outs ! j) = None)
                 \<longrightarrow> r = Some (toObjectErr e minioMetaBucket tmpMetaPrefix))"
proof -
  let ?errs = "map fst outs"
  let ?r = "firstError minioMetaBucket tmpMetaPrefix ?errs"
  have run: "initObjectLayer fuel minioMetaBucket tmpMetaPrefix storageDisks = Some (?r, map snd outs)"
    using assms by (simp add: initObjectLayer_def)
  have len: "length outs = length storageDisks"
    using assms by (rule runUnits_nth(1))
  have "(\<forall>e\<in>set ?errs. e = None) \<longleftrightarrow> (\<forall>i<length outs. fst (outs ! i) = None)"
    by (simp add: all_set_conv_all_nth)
  then have nil: "?r = None \<longleftrightarrow> (\<forall>i<length outs. fst (outs ! i) = None)"
    by (simp only: firstError_None)
  have first: "\<forall>i e. i < length outs \<and> fst (outs ! i) = Some e \<and> (\<forall>j<i. fst (outs ! j) = None)
                 \<longrightarrow> ?r = Some (toObjectErr e minioMetaBucket tmpMetaPrefix)"
  proof (intro allI impI, elim conjE)
    fix i e
    assume i: "i < length outs" and e: "fst (outs ! i) = Some e"
      and before: "\<forall>j<i. fst (outs ! j) = None"
    have a: "i < length ?errs" using i by simp
    have b: "?errs ! i = Some e" using i e by simp
    have c: "\<forall>j<i. ?errs ! j = None" using i before by simp
    from firstError_first [OF a b c]
    show "?r = Some (toObjectErr e minioMetaBucket tmpMetaPrefix)" .
  qed
  show ?thesis
    by (rule exI [of _ ?r]) (intro conjI run len nil first)
qed

text \<open>Six disks of which those at indices 2 and 5 record an error: the error returned
  is the one of index 2.\<close>

theorem initObjectLayer_first_error_witness:
  "runUnits 2 ''.minio.sys'' ''tmp'' sixDisks =
     Some [(None, \<lparr>vols = [''.minio.sys''], files = []\<rparr>,
              [ListDirCall ''.minio.sys'' ''tmp/'' [] (Some errFileNotFound)]),
           (None, \<lparr>vols = [''.minio.sys''], files = []\<rparr>,
              [ListDirCall ''.minio.sys'' ''tmp/'' [] (Some errFileNotFound)]),
           (Some (errOther ''two''), \<lparr>vols = [], files = []\<rparr>, []),
           (None, \<lparr>vols = [''.minio.sys''], files = []\<rparr>,
              [ListDirCall ''.minio.sys'' ''tmp/'' [''x''] None,
               DeleteFileCall ''.minio.sys'' ''tmp/x'' None]),
           (None, \<lparr>vols = [], files = []\<rparr>,
              [ListDirCall ''.minio.sys'' ''tmp/'' [] (Some errFileNotFound)]),
           (Some (errOther ''five''), \<lparr>vols = [], files = []\<rparr>, [])]
   \<and> fst (the (initObjectLayer 2 ''.minio.sys'' ''tmp'' sixDisks))
       = Some (toObjectErr (errOther ''two'') ''.minio.sys'' ''tmp'')"
proof -
  let ?outs = "[(None, \<lparr>vols = [''.minio.sys''], files = []\<rparr>,
              [ListDirCall ''.minio.sys'' ''tmp/'' [] (Some errFileNotFound)]),
           (None, \<lparr>vols = [''.minio.sys''], files = []\<rparr>,
              [ListDirCall ''.minio.sys'' ''tmp/'' [] (Some errFileNotFound)]),
           (Some (errOther ''two''), \<lparr>vols = [], files = []\<rparr>, []),
           (None, \<lparr>vols = [''.minio.sys''], files = []\<rparr>,
              [ListDirCall ''.minio.sys'' ''tmp/'' [''x''] None,
               DeleteFileCall ''.minio.sys'' ''tmp/x'' None]),
           (None, \<lparr>vols = [], files = []\<rparr>,
              [ListDirCall ''.minio.sys'' ''tmp/'' [] (Some errFileNotFound)]),
           (Some (errOther ''five''), \<lparr>vols = [], files = []\<rparr>, [])]"
  have ru: "runUnits 2 ''.minio.sys'' ''tmp'' sixDisks = Some ?outs"
    by code_simp
  from initObjectLayer_first_error [OF ru] obtain r
    where run: "initObjectLayer 2 ''.minio.sys'' ''tmp'' sixDisks = Some (r, map snd ?outs)"
      and first: "\<forall>i e. i < length ?outs \<and> fst (?outs ! i) = Some e \<and> (\<forall>j<i. fst (?outs ! j) = None)
                 \<longrightarrow> r = Some (toObjectErr e ''.minio.sys'' ''tmp'')"
    by (elim exE conjE)
  have before: "\<forall>j<2. fst (?outs ! j) = None"
  proof (intro allI impI)
    fix j :: nat
    assume "j < 2"
    then have "j = 0 \<or> j = 1" by auto
    then show "fst (?outs ! j) = None" by auto
  qed
  have "2 < length ?outs \<and> fst (?outs ! 2) = Some (errOther ''two'') \<and> (\<forall>j<2. fst (?outs ! j) = None)"
    using before by simp
  with first have "r = Some (toObjectErr (errOther ''two'') ''.minio.sys'' ''tmp'')"
    by blast
  with run have "fst (the (initObjectLayer 2 ''.minio.sys'' ''tmp'' sixDisks))
       = Some (toObjectErr (errOther ''two'') ''.minio.sys'' ''tmp'')"
    by simp
  with ru show ?thesis by (intro conjI)
qed

lemma delFunc_dir_first_call:
  "hasSuffix p slashSeparator \<Longrightarrow> delFunc fuel storage volume p \<sigma> = Some (r, \<sigma>', cs)
    \<Longrightarrow> \<exists>entries err cs'. cs = ListDirCall volume p entries err # cs'"
  by (cases fuel) (auto split: prod.splits if_splits option.splits)

lemma cleanupDir_first_call:
  "cleanupDir fuel storage volume dirPath \<sigma> = Some (r, \<sigma>', cs)
    \<Longrightarrow> \<exists>entries err cs'. cs = ListDirCall volume (retainSlash (pathJoin [dirPath])) entries err # cs'"
  unfolding cleanupDir_def by (rule delFunc_dir_first_call [OF hasSuffix_retainSlash])

lemma initDisk_nil_cleanup:
  assumes "initDisk fuel mb tp disk \<sigma> = Some (None, \<sigma>', cs)"
  shows "\<exists>entries err cs'. cs = ListDirCall mb (retainSlash (pathJoin [tp])) entries err # cs'"
proof -
  obtain err \<sigma>1 where mk: "MakeVol disk mb \<sigma> = (err, \<sigma>1)"
    by (cases "MakeVol disk mb \<sigma>")
  with assms have "cleanupDir fuel disk mb tp \<sigma>1 = Some (None, \<sigma>', cs)"
    by (auto simp: initDisk_def split: if_splits)
  then show ?thesis by (rule cleanupDir_first_call)
qed

text \<open>
  C6. When the volume creation of exactly one disk, the one at index \<open>k\<close>, fails with
  an error other than volume-exists and disk-not-found, and the units of all other
  disks record nil, then initObjectLayer returns that disk's error translated; the
  failing disk has issued no call of the cleanup; and every other disk has had its
  cleanup run, which shows in its trace starting with the listing of the temporary
  root. The outcome of each unit is that of initDisk on its own disk alone.
\<close>

theorem initObjectLayer_isolation:
  assumes k: "k < length storageDisks"
    and mk: "MakeVol (fst (storageDisks ! k)) minioMetaBucket (snd (storageDisks ! k)) = (Some e, \<sigma>k)"
    and hard: "e \<noteq> errVolumeExists" "e \<noteq> errDiskNotFound"
    and others: "\<forall>i<length storageDisks. i \<noteq> k \<longrightarrow>
       (\<exists>\<sigma> cs. initDisk fuel minioMetaBucket tmpMetaPrefix (fst (storageDisks ! i)) (snd (storageDisks ! i))
                 = Some (None, \<sigma>, cs))"
  shows "\<exists>finals.
       initObjectLayer fuel minioMetaBucket tmpMetaPrefix storageDisks
         = Some (Some (toObjectErr e minioMetaBucket tmpMetaPrefix), finals)
     \<and> length finals = length storageDisks
     \<and> finals ! k = (\<sigma>k, [])
     \<and> (\<forall>i<length storageDisks. i \<noteq> k \<longrightarrow>
          initDisk fuel minioMetaBucket tmpMetaPrefix (fst (storageDisks ! i)) (snd (storageDisks ! i))
            = Some (None, finals ! i)
          \<and> (\<exists>entries err cs. snd (finals ! i)
                = ListDirCall minioMetaBucket (retainSlash (pathJoin [tmpMetaPrefix])) entries err # cs))"
proof -
  let ?unit = "\<lambda>(disk, \<sigma>). initDisk fuel minioMetaBucket tmpMetaPrefix disk \<sigma>"
  let ?u = "\<lambda>i. initDisk fuel minioMetaBucket tmpMetaPrefix (fst (storageDisks ! i)) (snd (storageDisks ! i))"
  have uk: "?u k = Some (Some e, \<sigma>k, [])"
    using mk hard by (simp add: initDisk_def)
  have "\<forall>r\<in>set (map ?unit storageDisks). r \<noteq> None"
  proof
    fix r assume "r \<in> set (map ?unit storageDisks)"
    then obtain i where i: "i < length storageDisks" and r: "r = ?unit (storageDisks ! i)"
      by (auto simp: in_set_conv_nth)
    then have "r = ?u i" by (simp add: case_prod_beta)
    with uk others i show "r \<noteq> None" by (cases "i = k") auto
  qed
  then obtain outs where ru: "runUnits fuel minioMetaBucket tmpMetaPrefix storageDisks = Some outs"
    unfolding runUnits_def using waitAll_all_Some by blast
  note len = runUnits_nth(1) [OF ru]
  note nth = runUnits_nth(2) [OF ru]
  have outk: "outs ! k = (Some e, \<sigma>k, [])"
    using nth [OF k] uk by simp
  have oth: "fst (outs ! i) = None" if "i < length storageDisks" "i \<noteq> k" for i
  proof -
    from others that obtain \<sigma> cs where "?u i = Some (None, \<sigma>, cs)" by blast
    with nth [OF that(1)] have "outs ! i = (None, \<sigma>, cs)" by simp
    then show ?thesis by simp
  qed
  have a: "k < length (map fst outs)" using k len by simp
  have b: "map fst outs ! k = Some e" using k len outk by simp
  have c: "\<forall>j<k. map fst outs ! j = None"
  proof (intro allI impI)
    fix j assume "j < k"
    with k have "j < length storageDisks" "j \<noteq> k" by auto
    from oth [OF this] \<open>j < length storageDisks\<close> len show "map fst outs ! j = None" by simp
  qed
  have res: "initObjectLayer fuel minioMetaBucket tmpMetaPrefix storageDisks
         = Some (Some (toObjectErr e minioMetaBucket tmpMetaPrefix), map snd outs)"
    using ru firstError_first [OF a b c] by (simp add: initObjectLayer_def)
  have fk: "map snd outs ! k = (\<sigma>k, [])"
    using k len outk by simp
  have rest: "\<forall>i<length storageDisks. i \<noteq> k \<longrightarrow>
          ?u i = Some (None, map snd outs ! i)
          \<and> (\<exists>entries err cs. snd (map snd outs ! i)
                = ListDirCall minioMetaBucket (retainSlash (pathJoin [tmpMetaPrefix])) entries err # cs)"
  proof (intro allI impI)
    fix i assume i: "i < length storageDisks" "i \<noteq> k"
    have eq: "?u i = Some (outs ! i)" by (rule nth [OF i(1)])
    have "outs ! i = (None, snd (outs ! i))"
      using oth [OF i] by (cases "outs ! i") simp
    moreover have "map snd outs ! i = snd (outs ! i)" using i len by simp
    ultimately have u: "?u i = Some (None, map snd outs ! i)" using eq by simp
    then have "?u i = Some (None, fst (map snd outs ! i), snd (map snd outs ! i))" by simp
    from initDisk_nil_cleanup [OF this] u
    show "?u i = Some (None, map snd outs ! i)
          \<and> (\<exists>entries err cs. snd (map snd outs ! i)
                = ListDirCall minioMetaBucket (retainSlash (pathJoin [tmpMetaPrefix])) entries err # cs)"
      by simp
  qed
  show ?thesis
    by (rule exI [of _ "map snd outs"]) (intro conjI res fk rest, simp add: len)
qed

text \<open>Three disks, the middle one failing.\<close>

theorem initObjectLayer_isolation_witness:
  "MakeVol (fst (threeDisks ! 1)) ''.minio.sys'' (snd (threeDisks ! 1))
     = (Some (errOther ''input/output error''), \<lparr>vols = [], files = [(''.minio.sys'', ''tmp/y'')]\<rparr>)
   \<and> initDisk 2 ''.minio.sys'' ''tmp'' (fst (threeDisks ! 0)) (snd (threeDisks ! 0))
     = Some (None, \<lparr>vols = [''.minio.sys''], files = []\<rparr>,
         [ListDirCall ''.minio.sys'' ''tmp/'' [''x''] None,
          DeleteFileCall ''.minio.sys'' ''tmp/x'' None])
   \<and> initDisk 2 ''.minio.sys'' ''tmp'' (fst (threeDisks ! 2)) (snd (threeDisks ! 2))
     = Some (None, \<lparr>vols = [''.minio.sys''], files = []\<rparr>,
         [ListDirCall ''.minio.sys'' ''tmp/'' [] (Some errFileNotFound)])
   \<and> (\<exists>finals.
        initObjectLayer 2 ''.minio.sys'' ''tmp'' threeDisks
          = Some (Some (toObjectErr (errOther ''input/output error'') ''.minio.sys'' ''tmp''), finals)
      \<and> length finals = length threeDisks
      \<and> finals ! 1 = (\<lparr>vols = [], files = [(''.minio.sys'', ''tmp/y'')]\<rparr>, [])
      \<and> (\<exists>entries err cs. snd (finals ! 0)
            = ListDirCall ''.minio.sys'' (retainSlash (pathJoin [''tmp''])) entries err # cs)
      \<and> (\<exists>entries err cs. snd (finals ! 2)
            = ListDirCall ''.minio.sys'' (retainSlash (pathJoin [''tmp''])) entries err # cs))"
proof -
  let ?u = "\<lambda>i. initDisk 2 ''.minio.sys'' ''tmp'' (fst (threeDisks ! i)) (snd (threeDisks ! i))"
  have k: "1 < length threeDisks"
    by (simp add: threeDisks_def)
  have mk: "MakeVol (fst (threeDisks ! 1)) ''.minio.sys'' (snd (threeDisks ! 1))
     = (Some (errOther ''input/output error''), \<lparr>vols = [], files = [(''.minio.sys'', ''tmp/y'')]\<rparr>)"
    by code_simp
  have u0: "?u 0 = Some (None, \<lparr>vols = [''.minio.sys''], files = []\<rparr>,
         [ListDirCall ''.minio.sys'' ''tmp/'' [''x''] None,
          DeleteFileCall ''.minio.sys'' ''tmp/x'' None])"
    by code_simp
  have u2: "?u 2 = Some (None, \<lparr>vols = [''.minio.sys''], files = []\<rparr>,
         [ListDirCall ''.minio.sys'' ''tmp/'' [] (Some errFileNotFound)])"
    by code_simp
  have others: "\<forall>i<length threeDisks. i \<noteq> 1 \<longrightarrow> (\<exists>\<sigma> cs. ?u i = Some (None, \<sigma>, cs))"
  proof (intro allI impI)
    fix i assume "i < length threeDisks" "i \<noteq> 1"
    then have "i = 0 \<or> i = 2" by (auto simp: threeDisks_def)
    with u0 u2 show "\<exists>\<sigma> cs. ?u i = Some (None, \<sigma>, cs)" by auto
  qed
  from initObjectLayer_isolation [OF k mk _ _ others]
  obtain finals where
      res: "initObjectLayer 2 ''.minio.sys'' ''tmp'' threeDisks
          = Some (Some (toObjectErr (errOther ''input/output error'') ''.minio.sys'' ''tmp''), finals)"
    and len: "length finals = length threeDisks"
    and fk: "finals ! 1 = (\<lparr>vols = [], files = [(''.minio.sys'', ''tmp/y'')]\<rparr>, [])"
    and rest: "\<forall>i<length threeDisks. i \<noteq> 1 \<longrightarrow>
          ?u i = Some (None, finals ! i)
          \<and> (\<exists>entries err cs. snd (finals ! i)
                = ListDirCall ''.minio.sys'' (retainSlash (pathJoin [''tmp''])) entries err # cs)"
    by auto
  have "(0::nat) < length threeDisks" "(2::nat) < length threeDisks"
    by (simp_all add: threeDisks_def)
  with rest have
    r0: "\<exists>entries err cs. snd (finals ! 0)
            = ListDirCall ''.minio.sys'' (retainSlash (pathJoin [''tmp''])) entries err # cs"
    and r2: "\<exists>entries err cs. snd (finals ! 2)
            = ListDirCall ''.minio.sys'' (retainSlash (pathJoin [''tmp''])) entries err # cs"
    by auto
  from res len fk r0 r2 have "\<exists>finals.
        initObjectLayer 2 ''.minio.sys'' ''tmp'' threeDisks
          = Some (Some (toObjectErr (errOther ''input/output error'') ''.minio.sys'' ''tmp''), finals)
      \<and> length finals = length threeDisks
      \<and> finals ! 1 = (\<lparr>vols = [], files = [(''.minio.sys'', ''tmp/y'')]\<rparr>, [])
      \<and> (\<exists>entries err cs. snd (finals ! 0)
            = ListDirCall ''.minio.sys'' (retainSlash (pathJoin [''tmp''])) entries err # cs)
      \<and> (\<exists>entries err cs. snd (finals ! 2)
            = ListDirCall ''.minio.sys'' (retainSlash (pathJoin [''tmp''])) entries err # cs)"
    by (intro exI [of _ finals] conjI)
  with mk u0 u2 show ?thesis by (intro conjI)
qed

section \<open>The calls of a cleanup\<close>

lemma delEntries_calls:
  assumes "\<And>p \<sigma> r \<sigma>' cs. p \<in> set ps \<Longrightarrow> f p \<sigma> = Some (r, \<sigma>', cs) \<Longrightarrow> \<forall>c\<in>set cs. P c"
    and "delEntries f ps \<sigma> = Some (r, \<sigma>', cs)"
  shows "\<forall>c\<in>set cs. P c"
  using assms
proof (induction ps arbitrary: \<sigma> r \<sigma>' cs)
  case Nil
  then show ?case by simp
next
  case (Cons p ps)
  from Cons.prems(2) obtain r1 \<sigma>1 cs1 where head: "f p \<sigma> = Some (r1, \<sigma>1, cs1)"
    by (auto split: option.splits)
  have h1: "\<forall>c\<in>set cs1. P c"
    using Cons.prems(1) [OF _ head] by simp
  show ?case
  proof (cases r1)
    case (Some err)
    with head Cons.prems(2) have "cs = cs1" by simp
    with h1 show ?thesis by simp
  next
    case None
    with head Cons.prems(2) obtain cs2 where
      tail: "delEntries f ps \<sigma>1 = Some (r, \<sigma>', cs2)" and cs: "cs = cs1 @ cs2"
      by (auto split: option.splits)
    have "\<forall>c\<in>set cs2. P c"
      using Cons.IH [OF _ tail] Cons.prems(1) by (meson list.set_intros(2))
    with h1 cs show ?thesis by auto
  qed
qed

lemma delFunc_calls:
  assumes del: "\<And>p err. \<not> hasSuffix p slashSeparator \<Longrightarrow> Q p \<Longrightarrow> P (DeleteFileCall volume p err)"
    and lst: "\<And>p entries err. hasSuffix p slashSeparator \<Longrightarrow> Q p \<Longrightarrow> P (ListDirCall volume p entries err)"
    and step: "\<And>p entry. hasSuffix p slashSeparator \<Longrightarrow> Q p \<Longrightarrow> Q (pathJoin [p, entry])"
    and "Q entryPath"
    and "delFunc fuel storage volume entryPath \<sigma> = Some (r, \<sigma>', cs)"
  shows "\<forall>c\<in>set cs. P c"
  using assms(4,5)
proof (induction fuel arbitrary: entryPath \<sigma> r \<sigma>' cs)
  case 0
  then show ?case by simp
next
  case (Suc fuel)
  show ?case
  proof (cases "hasSuffix entryPath slashSeparator")
    case False
    with Suc.prems(2) obtain err where "cs = [DeleteFileCall volume entryPath err]"
      by (auto split: prod.splits)
    with del [OF False Suc.prems(1)] show ?thesis by simp
  next
    case True
    obtain entries err \<sigma>1 where l: "ListDir storage volume entryPath \<sigma> = ((entries, err), \<sigma>1)"
      by (metis surj_pair)
    note here = lst [OF True Suc.prems(1), of entries err]
    show ?thesis
    proof (cases err)
      case (Some e)
      with True l Suc.prems(2) have "cs = [ListDirCall volume entryPath entries err]"
        by (auto split: if_splits)
      with here show ?thesis by simp
    next
      case None
      with True l Suc.prems(2) obtain cs1 where
        loop: "delEntries (\<lambda>entry. delFunc fuel storage volume (pathJoin [entryPath, entry])) entries \<sigma>1
                 = Some (r, \<sigma>', cs1)"
        and cs: "cs = ListDirCall volume entryPath entries err # cs1"
        by (auto split: option.splits)
      have "\<forall>c\<in>set cs1. P c"
      proof (rule delEntries_calls [OF _ loop])
        fix p \<tau> r' \<tau>' cs'
        assume "delFunc fuel storage volume (pathJoin [entryPath, p]) \<tau> = Some (r', \<tau>', cs')"
        from Suc.IH [OF step [OF True Suc.prems(1)] this] show "\<forall>c\<in>set cs'. P c" .
      qed
      with here cs show ?thesis by simp
    qed
  qed
qed

text \<open>
  C4. In any run of cleanupDir, no DeleteFile call is on a path that ends with the
  separator, and every ListDir call is on one that does: a path that ends with the
  separator always goes to the list-and-recurse branch, never to the delete branch.
\<close>

theorem cleanupDir_never_deletes_directory_path:
  assumes "cleanupDir fuel storage volume dirPath \<sigma> = Some (r, \<sigma>', cs)"
  shows "(\<forall>v p err. DeleteFileCall v p err \<in> set cs \<longrightarrow> \<not> hasSuffix p slashSeparator)
       \<and> (\<forall>v p entries err. ListDirCall v p entries err \<in> set cs \<longrightarrow> hasSuffix p slashSeparator)"
proof -
  let ?P = "\<lambda>c. case c of DeleteFileCall v p err \<Rightarrow> \<not> hasSuffix p slashSeparator
                        | ListDirCall v p entries err \<Rightarrow> hasSuffix p slashSeparator"
  have "\<forall>c\<in>set cs. ?P c"
    by (rule delFunc_calls [where Q = "\<lambda>p. True" and P = ?P, OF _ _ _ _ assms [unfolded cleanupDir_def]])
      simp_all
  then show ?thesis by fastforce
qed

lemma retainSlash_dir: "hasSuffix p slashSeparator \<Longrightarrow> retainSlash p = p"
  by (simp add: retainSlash_def)

text \<open>
  C9. Every call that cleanupDir issues, DeleteFile or ListDir, is on the given volume
  and on a path that has the normalised root as a prefix. The trace holds every call of
  the run, and the cleanup has no other access to the disk.
\<close>

theorem cleanupDir_stays_in_subtree:
  assumes "cleanupDir fuel storage volume dirPath \<sigma> = Some (r, \<sigma>', cs)"
  shows "\<forall>c\<in>set cs. inSubtree volume (retainSlash (pathJoin [dirPath])) c"
  by (rule delFunc_calls [where Q = "prefix (retainSlash (pathJoin [dirPath]))",
        OF _ _ _ _ assms [unfolded cleanupDir_def]])
    (simp_all add: retainSlash_dir)

text \<open>The spec's tree on the in-memory disk: cleanupDir on \<^verbatim>\<open>a/\<close> deletes exactly \<^verbatim>\<open>a/b\<close> and
  \<^verbatim>\<open>a/c/d\<close>, and lists \<^verbatim>\<open>a/c/\<close> instead of deleting it.\<close>

theorem cleanupDir_never_deletes_directory_path_witness:
  "cleanupDir 3 memDisk ''.minio.sys'' ''a/''
       \<lparr>vols = [''.minio.sys''], files = [(''.minio.sys'', ''a/b''), (''.minio.sys'', ''a/c/d'')]\<rparr>
     = Some (None, \<lparr>vols = [''.minio.sys''], files = []\<rparr>,
         [ListDirCall ''.minio.sys'' ''a/'' [''b'', ''c/''] None,
          DeleteFileCall ''.minio.sys'' ''a/b'' None,
          ListDirCall ''.minio.sys'' ''a/c/'' [''d''] None,
          DeleteFileCall ''.minio.sys'' ''a/c/d'' None])
   \<and> \<not> hasSuffix ''a/b'' slashSeparator \<and> \<not> hasSuffix ''a/c/d'' slashSeparator
   \<and> hasSuffix ''a/'' slashSeparator \<and> hasSuffix ''a/c/'' slashSeparator"
proof -
  have run: "cleanupDir 3 memDisk ''.minio.sys'' ''a/''
       \<lparr>vols = [''.minio.sys''], files = [(''.minio.sys'', ''a/b''), (''.minio.sys'', ''a/c/d'')]\<rparr>
     = Some (None, \<lparr>vols = [''.minio.sys''], files = []\<rparr>,
         [ListDirCall ''.minio.sys'' ''a/'' [''b'', ''c/''] None,
          DeleteFileCall ''.minio.sys'' ''a/b'' None,
          ListDirCall ''.minio.sys'' ''a/c/'' [''d''] None,
          DeleteFileCall ''.minio.sys'' ''a/c/d'' None])"
    by code_simp
  from cleanupDir_never_deletes_directory_path [OF run]
  have "\<not> hasSuffix ''a/b'' slashSeparator \<and> \<not> hasSuffix ''a/c/d'' slashSeparator
      \<and> hasSuffix ''a/'' slashSeparator \<and> hasSuffix ''a/c/'' slashSeparator"
    by simp
  with run show ?thesis by (rule conjI)
qed

text \<open>A disk with files beside the temporary subtree and on another volume: they stay.\<close>

theorem cleanupDir_stays_in_subtree_witness:
  "cleanupDir 3 memDisk ''.minio.sys'' ''tmp''
       \<lparr>vols = [''.minio.sys'', ''photos''],
         files = [(''.minio.sys'', ''tmp/u1/part.1''), (''.minio.sys'', ''tmpfile''),
                  (''.minio.sys'', ''buckets/photos/policy.json''), (''photos'', ''tmp/cat.jpg'')]\<rparr>
     = Some (None,
         \<lparr>vols = [''.minio.sys'', ''photos''],
           files = [(''.minio.sys'', ''tmpfile''),
                    (''.minio.sys'', ''buckets/photos/policy.json''), (''photos'', ''tmp/cat.jpg'')]\<rparr>,
         [ListDirCall ''.minio.sys'' ''tmp/'' [''u1/''] None,
          ListDirCall ''.minio.sys'' ''tmp/u1/'' [''part.1''] None,
          DeleteFileCall ''.minio.sys'' ''tmp/u1/part.1'' None])
   \<and> inSubtree ''.minio.sys'' (retainSlash (pathJoin [''tmp'']))
        (ListDirCall ''.minio.sys'' ''tmp/'' [''u1/''] None)
   \<and> inSubtree ''.minio.sys'' (retainSlash (pathJoin [''tmp'']))
        (ListDirCall ''.minio.sys'' ''tmp/u1/'' [''part.1''] None)
   \<and> inSubtree ''.minio.sys'' (retainSlash (pathJoin [''tmp'']))
        (DeleteFileCall ''.minio.sys'' ''tmp/u1/part.1'' None)"
proof -
  have run: "cleanupDir 3 memDisk ''.minio.sys'' ''tmp''
       \<lparr>vols = [''.minio.sys'', ''photos''],
         files = [(''.minio.sys'', ''tmp/u1/part.1''), (''.minio.sys'', ''tmpfile''),
                  (''.minio.sys'', ''buckets/photos/policy.json''), (''photos'', ''tmp/cat.jpg'')]\<rparr>
     = Some (None,
         \<lparr>vols = [''.minio.sys'', ''photos''],
           files = [(''.minio.sys'', ''tmpfile''),
                    (''.minio.sys'', ''buckets/photos/policy.json''), (''photos'', ''tmp/cat.jpg'')]\<rparr>,
         [ListDirCall ''.minio.sys'' ''tmp/'' [''u1/''] None,
          ListDirCall ''.minio.sys'' ''tmp/u1/'' [''part.1''] None,
          DeleteFileCall ''.minio.sys'' ''tmp/u1/part.1'' None])"
    by code_simp
  from cleanupDir_stays_in_subtree [OF run]
  have "inSubtree ''.minio.sys'' (retainSlash (pathJoin [''tmp'']))
        (ListDirCall ''.minio.sys'' ''tmp/'' [''u1/''] None)
   \<and> inSubtree ''.minio.sys'' (retainSlash (pathJoin [''tmp'']))
        (ListDirCall ''.minio.sys'' ''tmp/u1/'' [''part.1''] None)
   \<and> inSubtree ''.minio.sys'' (retainSlash (pathJoin [''tmp'']))
        (DeleteFileCall ''.minio.sys'' ''tmp/u1/part.1'' None)"
    by (simp del: inSubtree.simps)
  with run show ?thesis by (rule conjI)
qed

lemma delEntries_fail_fast:
  assumes "\<And>p \<sigma> r \<sigma>' cs. p \<in> set ps \<Longrightarrow> f p \<sigma> = Some (r, \<sigma>', cs)
             \<Longrightarrow> cs \<noteq> [] \<and> (\<forall>c\<in>set (butlast cs). failure c = None) \<and> failure (last cs) = r"
    and "delEntries f ps \<sigma> = Some (r, \<sigma>', cs)"
  shows "(\<forall>c\<in>set (butlast cs). failure c = None) \<and> (if cs = [] then r = None else failure (last cs) = r)"
  using assms
proof (induction ps arbitrary: \<sigma> r \<sigma>' cs)
  case Nil
  then show ?case by simp
next
  case (Cons p ps)
  from Cons.prems(2) obtain r1 \<sigma>1 cs1 where head: "f p \<sigma> = Some (r1, \<sigma>1, cs1)"
    by (auto split: option.splits)
  have h1: "cs1 \<noteq> []" "\<forall>c\<in>set (butlast cs1). failure c = None" "failure (last cs1) = r1"
    using Cons.prems(1) [OF _ head] by simp_all
  show ?case
  proof (cases r1)
    case (Some err)
    with head Cons.prems(2) have "cs = cs1" "r = r1" by simp_all
    with h1 show ?thesis by simp
  next
    case None
    with head Cons.prems(2) obtain cs2 where
      tail: "delEntries f ps \<sigma>1 = Some (r, \<sigma>', cs2)" and cs: "cs = cs1 @ cs2"
      by (auto split: option.splits)
    have h2: "(\<forall>c\<in>set (butlast cs2). failure c = None)
              \<and> (if cs2 = [] then r = None else failure (last cs2) = r)"
      using Cons.IH [OF _ tail] Cons.prems(1) by (meson list.set_intros(2))
    have all1: "\<forall>c\<in>set cs1. failure c = None"
    proof
      fix c assume "c \<in> set cs1"
      moreover have "set cs1 = set (butlast cs1 @ [last cs1])"
        using h1(1) by simp
      ultimately have "c \<in> set (butlast cs1) \<or> c = last cs1"
        by (simp only: set_append set_simps) blast
      with h1(2,3) None show "failure c = None" by blast
    qed
    show ?thesis
    proof (cases "cs2 = []")
      case True
      with h1 h2 None cs show ?thesis by simp
    next
      case False
      with h2 all1 cs show ?thesis by (auto simp: butlast_append)
    qed
  qed
qed

lemma delFunc_fail_fast:
  "delFunc fuel storage volume entryPath \<sigma> = Some (r, \<sigma>', cs)
    \<Longrightarrow> cs \<noteq> [] \<and> (\<forall>c\<in>set (butlast cs). failure c = None) \<and> failure (last cs) = r"
proof (induction fuel arbitrary: entryPath \<sigma> r \<sigma>' cs)
  case 0
  then show ?case by simp
next
  case (Suc fuel)
  show ?case
  proof (cases "hasSuffix entryPath slashSeparator")
    case False
    with Suc.prems show ?thesis by (auto split: prod.splits)
  next
    case True
    obtain entries err \<sigma>1 where l: "ListDir storage volume entryPath \<sigma> = ((entries, err), \<sigma>1)"
      by (metis surj_pair)
    show ?thesis
    proof (cases err)
      case (Some e)
      with True l Suc.prems show ?thesis by (auto split: if_splits)
    next
      case None
      with True l Suc.prems obtain cs1 where
        loop: "delEntries (\<lambda>entry. delFunc fuel storage volume (pathJoin [entryPath, entry])) entries \<sigma>1
                 = Some (r, \<sigma>', cs1)"
        and cs: "cs = ListDirCall volume entryPath entries None # cs1"
        by (auto split: option.splits)
      have "(\<forall>c\<in>set (butlast cs1). failure c = None)
              \<and> (if cs1 = [] then r = None else failure (last cs1) = r)"
        by (rule delEntries_fail_fast [OF _ loop]) (rule Suc.IH)
      with cs show ?thesis by (cases "cs1 = []") auto
    qed
  qed
qed

section \<open>The root of a cleanup\<close>

lemma retainSlash_append_slash: "retainSlash (p @ slashSeparator) = p @ slashSeparator"
  by (simp add: retainSlash_def hasSuffix_iff_suffix suffix_def)

text \<open>
  C8. For a root \<open>p\<close> given without a trailing separator, cleanupDir on \<open>p\<close> and on \<open>p\<close>
  followed by the separator are the same run: same result, same final state, same calls.
  The run starts with the listing of the normalised root, and never issues DeleteFile
  on the root, in either form.
\<close>

theorem cleanupDir_root_normalised:
  assumes "\<not> hasSuffix p slashSeparator"
  shows "cleanupDir fuel storage volume (p @ slashSeparator) \<sigma> = cleanupDir fuel storage volume p \<sigma>
       \<and> (\<forall>r \<sigma>' cs. cleanupDir fuel storage volume p \<sigma> = Some (r, \<sigma>', cs) \<longrightarrow>
            (\<exists>entries err cs'. cs = ListDirCall volume (p @ slashSeparator) entries err # cs')
            \<and> (\<forall>err. DeleteFileCall volume p err \<notin> set cs
                    \<and> DeleteFileCall volume (p @ slashSeparator) err \<notin> set cs))"
proof -
  have root: "retainSlash (pathJoin [p]) = p @ slashSeparator"
    using assms by (simp add: retainSlash_def)
  have root': "retainSlash (pathJoin [p @ slashSeparator]) = p @ slashSeparator"
    by (simp add: retainSlash_append_slash)
  have same: "cleanupDir fuel storage volume (p @ slashSeparator) \<sigma> = cleanupDir fuel storage volume p \<sigma>"
    unfolding cleanupDir_def root root' ..
  have listed: "(\<exists>entries err cs'. cs = ListDirCall volume (p @ slashSeparator) entries err # cs')
            \<and> (\<forall>err. DeleteFileCall volume p err \<notin> set cs
                    \<and> DeleteFileCall volume (p @ slashSeparator) err \<notin> set cs)"
    if run: "cleanupDir fuel storage volume p \<sigma> = Some (r, \<sigma>', cs)" for r \<sigma>' cs
  proof -
    from cleanupDir_first_call [OF run] root
    have first: "\<exists>entries err cs'. cs = ListDirCall volume (p @ slashSeparator) entries err # cs'"
      by simp
    have run': "delFunc fuel storage volume (p @ slashSeparator) \<sigma> = Some (r, \<sigma>', cs)"
      using run unfolding cleanupDir_def root .
    let ?P = "\<lambda>c. \<forall>err. c \<noteq> DeleteFileCall volume p err \<and> c \<noteq> DeleteFileCall volume (p @ slashSeparator) err"
    have "\<forall>c\<in>set cs. ?P c"
    proof (rule delFunc_calls [where Q = "prefix (p @ slashSeparator)" and P = ?P, OF _ _ _ _ run'])
      fix q err
      assume q: "\<not> hasSuffix q slashSeparator" "prefix (p @ slashSeparator) q"
      have "q \<noteq> p"
        using q(2) by (auto simp: slashSeparator_def)
      moreover have "q \<noteq> p @ slashSeparator"
        using q(1) by (auto simp: hasSuffix_iff_suffix suffix_def)
      ultimately show "?P (DeleteFileCall volume q err)" by simp
    qed (simp_all add: retainSlash_dir)
    then have "\<forall>err. DeleteFileCall volume p err \<notin> set cs
                    \<and> DeleteFileCall volume (p @ slashSeparator) err \<notin> set cs"
      by blast
    with first show ?thesis by (rule conjI)
  qed
  from same listed show ?thesis by blast
qed

text \<open>A disk that also holds a leaf named like the root: it is not deleted.\<close>

theorem cleanupDir_root_normalised_witness:
  "\<not> hasSuffix ''tmp'' slashSeparator
   \<and> cleanupDir 2 memDisk ''.minio.sys'' (''tmp'' @ slashSeparator)
        \<lparr>vols = [''.minio.sys''], files = [(''.minio.sys'', ''tmp/x''), (''.minio.sys'', ''tmp'')]\<rparr>
     = Some (None, \<lparr>vols = [''.minio.sys''], files = [(''.minio.sys'', ''tmp'')]\<rparr>,
          [ListDirCall ''.minio.sys'' ''tmp/'' [''x''] None, DeleteFileCall ''.minio.sys'' ''tmp/x'' None])
   \<and> cleanupDir 2 memDisk ''.minio.sys'' ''tmp''
        \<lparr>vols = [''.minio.sys''], files = [(''.minio.sys'', ''tmp/x''), (''.minio.sys'', ''tmp'')]\<rparr>
     = Some (None, \<lparr>vols = [''.minio.sys''], files = [(''.minio.sys'', ''tmp'')]\<rparr>,
          [ListDirCall ''.minio.sys'' ''tmp/'' [''x''] None, DeleteFileCall ''.minio.sys'' ''tmp/x'' None])"
proof -
  have h: "\<not> hasSuffix ''tmp'' slashSeparator"
    by code_simp
  have run: "cleanupDir 2 memDisk ''.minio.sys'' ''tmp''
        \<lparr>vols = [''.minio.sys''], files = [(''.minio.sys'', ''tmp/x''), (''.minio.sys'', ''tmp'')]\<rparr>
     = Some (None, \<lparr>vols = [''.minio.sys''], files = [(''.minio.sys'', ''tmp'')]\<rparr>,
          [ListDirCall ''.minio.sys'' ''tmp/'' [''x''] None, DeleteFileCall ''.minio.sys'' ''tmp/x'' None])"
    by code_simp
  from cleanupDir_root_normalised [OF h, of 2 memDisk "''.minio.sys''"
      "\<lparr>vols = [''.minio.sys''], files = [(''.minio.sys'', ''tmp/x''), (''.minio.sys'', ''tmp'')]\<rparr>"]
  have "cleanupDir 2 memDisk ''.minio.sys'' (''tmp'' @ slashSeparator)
        \<lparr>vols = [''.minio.sys''], files = [(''.minio.sys'', ''tmp/x''), (''.minio.sys'', ''tmp'')]\<rparr>
     = cleanupDir 2 memDisk ''.minio.sys'' ''tmp''
        \<lparr>vols = [''.minio.sys''], files = [(''.minio.sys'', ''tmp/x''), (''.minio.sys'', ''tmp'')]\<rparr>"
    by (rule conjunct1)
  with h run show ?thesis by simp
qed

section \<open>Termination of a cleanup\<close>

lemma delEntries_mono:
  assumes "\<And>p \<sigma> x. p \<in> set ps \<Longrightarrow> f p \<sigma> = Some x \<Longrightarrow> g p \<sigma> = Some x"
    and "delEntries f ps \<sigma> = Some y"
  shows "delEntries g ps \<sigma> = Some y"
  using assms
proof (induction ps arbitrary: \<sigma> y)
  case Nil
  then show ?case by simp
next
  case (Cons p ps)
  from Cons.prems(2) obtain r1 \<sigma>1 cs1 where head: "f p \<sigma> = Some (r1, \<sigma>1, cs1)"
    by (auto split: option.splits)
  then have head': "g p \<sigma> = Some (r1, \<sigma>1, cs1)"
    using Cons.prems(1) by simp
  show ?case
  proof (cases r1)
    case (Some err)
    with head Cons.prems(2) have "y = (Some err, \<sigma>1, cs1)" by simp
    with head' Some show ?thesis by simp
  next
    case None
    with head Cons.prems(2) obtain z where tail: "delEntries f ps \<sigma>1 = Some z"
      by (auto split: option.splits)
    have "delEntries g ps \<sigma>1 = Some z"
    proof (rule Cons.IH [OF _ tail])
      fix q \<tau> x assume "q \<in> set ps" "f q \<tau> = Some x"
      then show "g q \<tau> = Some x" using Cons.prems(1) [of q \<tau> x] by simp
    qed
    moreover obtain r2 \<sigma>2 cs2 where "z = (r2, \<sigma>2, cs2)" by (cases z)
    ultimately show ?thesis
      using tail head head' None Cons.prems(2) by simp
  qed
qed

lemma delFunc_mono:
  "delFunc fuel storage volume entryPath \<sigma> = Some x \<Longrightarrow> fuel \<le> fuel'
    \<Longrightarrow> delFunc fuel' storage volume entryPath \<sigma> = Some x"
proof (induction fuel arbitrary: fuel' entryPath \<sigma> x)
  case 0
  then show ?case by simp
next
  case (Suc fuel)
  from Suc.prems(2) obtain m where m: "fuel' = Suc m" "fuel \<le> m"
    by (cases fuel') auto
  show ?case
  proof (cases "hasSuffix entryPath slashSeparator")
    case False
    with Suc.prems(1) m show ?thesis by simp
  next
    case True
    obtain entries err \<sigma>1 where l: "ListDir storage volume entryPath \<sigma> = ((entries, err), \<sigma>1)"
      by (metis surj_pair)
    show ?thesis
    proof (cases err)
      case (Some e)
      with True l Suc.prems(1) m show ?thesis by simp
    next
      case None
      with True l Suc.prems(1) obtain y where
        loop: "delEntries (\<lambda>entry. delFunc fuel storage volume (pathJoin [entryPath, entry])) entries \<sigma>1
                 = Some y"
        by (auto split: option.splits)
      have "delEntries (\<lambda>entry. delFunc m storage volume (pathJoin [entryPath, entry])) entries \<sigma>1
                 = Some y"
        by (rule delEntries_mono [OF _ loop]) (rule Suc.IH [OF _ m(2)])
      with loop True l None Suc.prems(1) m show ?thesis by simp
    qed
  qed
qed

lemma delEntries_preserves:
  assumes "\<And>p \<sigma> r \<sigma>' cs. p \<in> set ps \<Longrightarrow> I \<sigma> \<Longrightarrow> f p \<sigma> = Some (r, \<sigma>', cs) \<Longrightarrow> I \<sigma>'"
    and "I \<sigma>"
    and "delEntries f ps \<sigma> = Some (r, \<sigma>', cs)"
  shows "I \<sigma>'"
  using assms
proof (induction ps arbitrary: \<sigma> r \<sigma>' cs)
  case Nil
  then show ?case by simp
next
  case (Cons p ps)
  from Cons.prems(3) obtain r1 \<sigma>1 cs1 where head: "f p \<sigma> = Some (r1, \<sigma>1, cs1)"
    by (auto split: option.splits)
  have i1: "I \<sigma>1"
    using Cons.prems(1) [OF _ Cons.prems(2) head] by simp
  show ?case
  proof (cases r1)
    case (Some err)
    with head Cons.prems(3) i1 show ?thesis by simp
  next
    case None
    with head Cons.prems(3) obtain cs2 where tail: "delEntries f ps \<sigma>1 = Some (r, \<sigma>', cs2)"
      by (auto split: option.splits)
    show ?thesis
    proof (rule Cons.IH [OF _ i1 tail])
      fix q \<tau> r' \<tau>' cs'
      assume "q \<in> set ps" "I \<tau>" "f q \<tau> = Some (r', \<tau>', cs')"
      then show "I \<tau>'" using Cons.prems(1) [of q \<tau> r' \<tau>' cs'] by simp
    qed
  qed
qed

lemma delFunc_preserves:
  assumes "preserves storage I"
  shows "I \<sigma> \<Longrightarrow> delFunc fuel storage volume entryPath \<sigma> = Some (r, \<sigma>', cs) \<Longrightarrow> I \<sigma>'"
proof (induction fuel arbitrary: entryPath \<sigma> r \<sigma>' cs)
  case 0
  then show ?case by simp
next
  case (Suc fuel)
  have d: "I (snd (DeleteFile storage volume entryPath \<sigma>))"
    and l: "I (snd (ListDir storage volume entryPath \<sigma>))"
    using assms Suc.prems(1) unfolding preserves_def by blast+
  show ?case
  proof (cases "hasSuffix entryPath slashSeparator")
    case False
    with Suc.prems(2) d show ?thesis by (auto split: prod.splits)
  next
    case True
    obtain entries err \<sigma>1 where ld: "ListDir storage volume entryPath \<sigma> = ((entries, err), \<sigma>1)"
      by (metis surj_pair)
    with l have i1: "I \<sigma>1" by simp
    show ?thesis
    proof (cases err)
      case (Some e)
      with True ld Suc.prems(2) i1 show ?thesis by (auto split: if_splits)
    next
      case None
      with True ld Suc.prems(2) obtain cs1 where
        loop: "delEntries (\<lambda>entry. delFunc fuel storage volume (pathJoin [entryPath, entry])) entries \<sigma>1
                 = Some (r, \<sigma>', cs1)"
        by (auto split: option.splits)
      show ?thesis
      proof (rule delEntries_preserves [where I = I, OF _ i1 loop])
        fix q \<tau> r' \<tau>' cs'
        assume "I \<tau>" "delFunc fuel storage volume (pathJoin [entryPath, q]) \<tau> = Some (r', \<tau>', cs')"
        then show "I \<tau>'" by (rule Suc.IH)
      qed
    qed
  qed
qed

lemma delEntries_returns:
  assumes each: "\<And>p \<sigma>. p \<in> set ps \<Longrightarrow> I \<sigma> \<Longrightarrow> \<exists>n x. delFunc n storage volume (pathJoin [dir, p]) \<sigma> = Some x"
    and pres: "preserves storage I"
    and "I \<sigma>"
  shows "\<exists>n y. delEntries (\<lambda>entry. delFunc n storage volume (pathJoin [dir, entry])) ps \<sigma> = Some y"
  using each \<open>I \<sigma>\<close>
proof (induction ps arbitrary: \<sigma>)
  case Nil
  then show ?case by simp
next
  case (Cons p ps)
  have "\<exists>n x. delFunc n storage volume (pathJoin [dir, p]) \<sigma> = Some x"
    using Cons.prems(1) [of p \<sigma>] Cons.prems(2) by simp
  then obtain n1 x1 where "delFunc n1 storage volume (pathJoin [dir, p]) \<sigma> = Some x1"
    by blast
  moreover obtain r1 \<sigma>1 cs1 where "x1 = (r1, \<sigma>1, cs1)" by (cases x1)
  ultimately have head: "delFunc n1 storage volume (pathJoin [dir, p]) \<sigma> = Some (r1, \<sigma>1, cs1)"
    by simp
  show ?case
  proof (cases r1)
    case (Some err)
    with head have "delEntries (\<lambda>entry. delFunc n1 storage volume (pathJoin [dir, entry])) (p # ps) \<sigma>
                      = Some (Some err, \<sigma>1, cs1)"
      by simp
    then show ?thesis by blast
  next
    case None
    have "I \<sigma>1"
      by (rule delFunc_preserves [OF pres Cons.prems(2) head])
    have "\<exists>n y. delEntries (\<lambda>entry. delFunc n storage volume (pathJoin [dir, entry])) ps \<sigma>1 = Some y"
    proof (rule Cons.IH [OF _ \<open>I \<sigma>1\<close>])
      fix q \<tau> assume "q \<in> set ps" "I \<tau>"
      then show "\<exists>n x. delFunc n storage volume (pathJoin [dir, q]) \<tau> = Some x"
        using Cons.prems(1) [of q \<tau>] by simp
    qed
    then obtain n2 y where
      tail: "delEntries (\<lambda>entry. delFunc n2 storage volume (pathJoin [dir, entry])) ps \<sigma>1 = Some y"
      by blast
    let ?n = "max n1 n2"
    have head': "delFunc ?n storage volume (pathJoin [dir, p]) \<sigma> = Some (None, \<sigma>1, cs1)"
      using delFunc_mono [OF head, of ?n] None by simp
    have tail': "delEntries (\<lambda>entry. delFunc ?n storage volume (pathJoin [dir, entry])) ps \<sigma>1 = Some y"
      by (rule delEntries_mono [OF _ tail]) (rule delFunc_mono, assumption, simp)
    obtain r2 \<sigma>2 cs2 where y: "y = (r2, \<sigma>2, cs2)" by (cases y)
    from head' tail' y
    have "delEntries (\<lambda>entry. delFunc ?n storage volume (pathJoin [dir, entry])) (p # ps) \<sigma>
            = Some (r2, \<sigma>2, cs1 @ cs2)"
      by simp
    then show ?thesis by blast
  qed
qed

lemma delFunc_returns:
  assumes wf: "wf (childRel storage volume I)"
    and pres: "preserves storage I"
  shows "I \<sigma> \<Longrightarrow> \<exists>n x. delFunc n storage volume entryPath \<sigma> = Some x"
  using wf
proof (induction entryPath arbitrary: \<sigma> rule: wf_induct_rule)
  case (less dir)
  show ?case
  proof (cases "hasSuffix dir slashSeparator")
    case False
    then have "\<exists>x. delFunc (Suc 0) storage volume dir \<sigma> = Some x"
      by (auto split: prod.splits)
    then show ?thesis by blast
  next
    case True
    obtain entries err \<sigma>1 where ld: "ListDir storage volume dir \<sigma> = ((entries, err), \<sigma>1)"
      by (metis surj_pair)
    show ?thesis
    proof (cases err)
      case (Some e)
      with True ld have "\<exists>x. delFunc (Suc 0) storage volume dir \<sigma> = Some x"
        by simp
      then show ?thesis by blast
    next
      case None
      have "I (snd (ListDir storage volume dir \<sigma>))"
        using pres less.prems unfolding preserves_def by blast
      with ld have i1: "I \<sigma>1" by simp
      have each: "\<exists>n x. delFunc n storage volume (pathJoin [dir, p]) \<tau> = Some x"
        if "p \<in> set entries" "I \<tau>" for p \<tau>
      proof -
        have "(pathJoin [dir, p], dir) \<in> childRel storage volume I"
          unfolding childRel_def using less.prems True ld None that(1) by blast
        from less.IH [OF this that(2)] show ?thesis .
      qed
      from delEntries_returns [OF each pres i1] obtain n y where
        "delEntries (\<lambda>entry. delFunc n storage volume (pathJoin [dir, entry])) entries \<sigma>1 = Some y"
        by blast
      with True ld None have "\<exists>x. delFunc (Suc n) storage volume dir \<sigma> = Some x"
        by (cases y) simp
      then show ?thesis by blast
    qed
  qed
qed

text \<open>
  C10. cleanupDir returns on every disk whose tree is finite in depth: when the child
  relation of the disk on the volume is well-founded over a set of states that holds
  the starting state and is closed under the calls of a cleanup, there is a depth
  within which cleanupDir returns, and it returns the same with every larger bound.
  The entries of one listing are a list, hence finitely many.
\<close>

theorem cleanupDir_terminates:
  assumes "wf (childRel storage volume I)"
    and "preserves storage I"
    and "I \<sigma>"
  shows "\<exists>fuel x. \<forall>fuel'\<ge>fuel. cleanupDir fuel' storage volume dirPath \<sigma> = Some x"
proof -
  from delFunc_returns [OF assms] obtain n x where
    run: "delFunc n storage volume (retainSlash (pathJoin [dirPath])) \<sigma> = Some x"
    by blast
  have "cleanupDir fuel' storage volume dirPath \<sigma> = Some x" if "n \<le> fuel'" for fuel'
    unfolding cleanupDir_def by (rule delFunc_mono [OF run that])
  then have "\<forall>fuel'\<ge>n. cleanupDir fuel' storage volume dirPath \<sigma> = Some x"
    by simp
  then show ?thesis by (intro exI)
qed

lemma firstSegment_prefix: "prefix (firstSegment s) s"
  by (induction s) auto

lemma firstSegment_nonempty: "s \<noteq> [] \<Longrightarrow> firstSegment s \<noteq> []"
  by (cases s) auto

lemma memListDir_entry:
  assumes "memListDir volume dir \<sigma> = ((entries, None), \<sigma>')"
    and "entry \<in> set entries"
  shows "\<exists>rest. (volume, dir @ rest) \<in> set (files \<sigma>) \<and> rest \<noteq> [] \<and> entry = firstSegment rest"
proof -
  let ?keep = "filter (\<lambda>(v, f). v = volume \<and> prefix dir f \<and> f \<noteq> dir) (files \<sigma>)"
  let ?rests = "map (\<lambda>(v, f). drop (length dir) f) ?keep"
  from assms(1) have "entries = remdups (map firstSegment ?rests)"
    by (auto simp: memListDir_def Let_def split: if_splits)
  with assms(2) obtain v f where vf: "(v, f) \<in> set ?keep" and e: "entry = firstSegment (drop (length dir) f)"
    by auto
  from vf have in_files: "(v, f) \<in> set (files \<sigma>)" and v: "v = volume"
    and pre: "prefix dir f" and ne: "f \<noteq> dir"
    by auto
  from pre obtain rest where f: "f = dir @ rest"
    by (auto simp: prefix_def)
  with ne have "rest \<noteq> []" by auto
  with in_files v f e show ?thesis by auto
qed

lemma memDisk_childRel_measure:
  assumes bound: "\<And>v f. (v, f) \<in> S \<Longrightarrow> length f \<le> bound"
  shows "childRel memDisk volume (\<lambda>\<sigma>. set (files \<sigma>) \<subseteq> S) \<subseteq> measure (\<lambda>p. bound - length p)"
proof
  fix x assume "x \<in> childRel memDisk volume (\<lambda>\<sigma>. set (files \<sigma>) \<subseteq> S)"
  then obtain child dir \<sigma> entries \<sigma>' entry where x: "x = (child, dir)"
    and sub: "set (files \<sigma>) \<subseteq> S"
    and dir: "hasSuffix dir slashSeparator"
    and ld: "ListDir memDisk volume dir \<sigma> = ((entries, None), \<sigma>')"
    and entry: "entry \<in> set entries"
    and child: "child = pathJoin [dir, entry]"
    unfolding childRel_def by blast
  from ld have "memListDir volume dir \<sigma> = ((entries, None), \<sigma>')"
    by (simp add: memDisk_def)
  from memListDir_entry [OF this entry] obtain rest where
    f: "(volume, dir @ rest) \<in> set (files \<sigma>)" and rest: "rest \<noteq> []" and e: "entry = firstSegment rest"
    by blast
  have "length entry \<le> length rest"
    using firstSegment_prefix [of rest] e by (simp add: prefix_length_le)
  moreover have "length (dir @ rest) \<le> bound"
    using f sub bound by blast
  moreover have "entry \<noteq> []"
    using rest e by (simp add: firstSegment_nonempty)
  moreover have "child = dir @ entry"
    using child dir by (simp add: retainSlash_dir)
  ultimately have "bound - length child < bound - length dir"
    by (cases entry) auto
  with x show "x \<in> measure (\<lambda>p. bound - length p)" by simp
qed

lemma memDisk_preserves: "preserves memDisk (\<lambda>\<sigma>. set (files \<sigma>) \<subseteq> S)"
  unfolding preserves_def by (auto simp: memDisk_def memListDir_def Let_def)

text \<open>The in-memory disk holding the spec's tree: no state of the walk holds a file that
  the start did not, so the paths of the walk are bounded in length.\<close>

theorem cleanupDir_terminates_witness:
  "wf (childRel memDisk ''.minio.sys''
        (\<lambda>\<sigma>. set (files \<sigma>) \<subseteq> {(''.minio.sys'', ''a/b''), (''.minio.sys'', ''a/c/d'')}))
   \<and> (\<exists>fuel x. cleanupDir fuel memDisk ''.minio.sys'' ''a''
          \<lparr>vols = [''.minio.sys''], files = [(''.minio.sys'', ''a/b''), (''.minio.sys'', ''a/c/d'')]\<rparr> = Some x)"
proof -
  let ?S = "{(''.minio.sys'', ''a/b''), (''.minio.sys'', ''a/c/d'')}"
  let ?I = "\<lambda>\<sigma>. set (files \<sigma>) \<subseteq> ?S"
  let ?\<sigma> = "\<lparr>vols = [''.minio.sys''], files = [(''.minio.sys'', ''a/b''), (''.minio.sys'', ''a/c/d'')]\<rparr>"
  have "childRel memDisk ''.minio.sys'' ?I \<subseteq> measure (\<lambda>p. 5 - length p)"
    by (rule memDisk_childRel_measure) auto
  then have wf: "wf (childRel memDisk ''.minio.sys'' ?I)"
    by (rule wf_subset [OF wf_measure])
  have pres: "preserves memDisk ?I"
    by (rule memDisk_preserves)
  have init: "?I ?\<sigma>"
    by simp
  from cleanupDir_terminates [of memDisk "''.minio.sys''" ?I ?\<sigma> "''a''", OF wf pres init]
  obtain fuel x where "\<forall>fuel'\<ge>fuel. cleanupDir fuel' memDisk ''.minio.sys'' ''a'' ?\<sigma> = Some x"
    by blast
  then have "cleanupDir fuel memDisk ''.minio.sys'' ''a'' ?\<sigma> = Some x"
    by simp
  then have "\<exists>fuel x. cleanupDir fuel memDisk ''.minio.sys'' ''a'' ?\<sigma> = Some x"
    by (intro exI)
  with wf show ?thesis by (rule conjI)
qed

section \<open>Deleted paths\<close>

lemma deletedPaths_append: "deletedPaths (cs @ cs') = deletedPaths cs @ deletedPaths cs'"
  by (induction cs rule: deletedPaths.induct) simp_all

lemma sum_list_map_mset_cong:
  fixes g :: "'a \<Rightarrow> 'b multiset"
  assumes "mset xs = mset ys"
  shows "sum_list (map g xs) = sum_list (map g ys)"
proof -
  have "sum_list (map g xs) = sum_mset (image_mset g (mset xs))"
    by (metis mset_map sum_mset_sum_list)
  also have "\<dots> = sum_mset (image_mset g (mset ys))"
    using assms by simp
  also have "\<dots> = sum_list (map g ys)"
    by (metis mset_map sum_mset_sum_list)
  finally show ?thesis .
qed

section \<open>Failures of a cleanup\<close>

text \<open>
  C5, as amended. A call fails when DeleteFile returns any error, not-found included,
  or when ListDir returns an error other than not-found. First, on every disk and at
  every path, delFunc returns what DeleteFile answers for a leaf, whatever it is, and
  returns the error that ListDir answers for a directory, except that not-found becomes
  nil. Second, the whole walk: on a disk whose tree is finite in depth cleanupDir
  returns, no call before its last one fails, and what it returns is the failure of its
  last call, nil when that call did not fail. So the first failing call ends the walk
  and its error reaches the caller, and the only error absorbed is not-found from a
  listing.
\<close>

theorem cleanupDir_fail_fast:
  "(\<forall>p \<tau> fuel. \<not> hasSuffix p slashSeparator \<longrightarrow>
      delFunc (Suc fuel) storage volume p \<tau> =
        Some (fst (DeleteFile storage volume p \<tau>), snd (DeleteFile storage volume p \<tau>),
              [DeleteFileCall volume p (fst (DeleteFile storage volume p \<tau>))]))
   \<and> (\<forall>p \<tau> fuel e. hasSuffix p slashSeparator \<and> snd (fst (ListDir storage volume p \<tau>)) = Some e \<longrightarrow>
      delFunc (Suc fuel) storage volume p \<tau> =
        Some (if e = errFileNotFound then None else Some e, snd (ListDir storage volume p \<tau>),
              [ListDirCall volume p (fst (fst (ListDir storage volume p \<tau>))) (Some e)]))
   \<and> (wf (childRel storage volume I) \<and> preserves storage I \<and> I \<sigma> \<longrightarrow>
      (\<exists>fuel r \<sigma>' cs.
          (\<forall>fuel'\<ge>fuel. cleanupDir fuel' storage volume dirPath \<sigma> = Some (r, \<sigma>', cs))
        \<and> cs \<noteq> [] \<and> (\<forall>c\<in>set (butlast cs). failure c = None) \<and> failure (last cs) = r))"
proof (intro conjI allI impI)
  fix p \<tau> fuel
  assume "\<not> hasSuffix p slashSeparator"
  then show "delFunc (Suc fuel) storage volume p \<tau> =
        Some (fst (DeleteFile storage volume p \<tau>), snd (DeleteFile storage volume p \<tau>),
              [DeleteFileCall volume p (fst (DeleteFile storage volume p \<tau>))])"
    by (simp add: case_prod_beta)
next
  fix p \<tau> fuel e
  assume "hasSuffix p slashSeparator \<and> snd (fst (ListDir storage volume p \<tau>)) = Some e"
  then show "delFunc (Suc fuel) storage volume p \<tau> =
        Some (if e = errFileNotFound then None else Some e, snd (ListDir storage volume p \<tau>),
              [ListDirCall volume p (fst (fst (ListDir storage volume p \<tau>))) (Some e)])"
    by (simp add: case_prod_beta)
next
  assume fin: "wf (childRel storage volume I) \<and> preserves storage I \<and> I \<sigma>"
  then have "wf (childRel storage volume I)" "preserves storage I" "I \<sigma>"
    by simp_all
  then have "\<exists>n x. delFunc n storage volume (retainSlash (pathJoin [dirPath])) \<sigma> = Some x"
    by (rule delFunc_returns)
  then obtain n x where run: "delFunc n storage volume (retainSlash (pathJoin [dirPath])) \<sigma> = Some x"
    by blast
  obtain r \<sigma>' cs where x: "x = (r, \<sigma>', cs)" by (cases x)
  have stable: "\<forall>fuel'\<ge>n. cleanupDir fuel' storage volume dirPath \<sigma> = Some (r, \<sigma>', cs)"
  proof (intro allI impI)
    fix fuel' assume "n \<le> fuel'"
    from delFunc_mono [OF run this] x
    show "cleanupDir fuel' storage volume dirPath \<sigma> = Some (r, \<sigma>', cs)"
      by (simp add: cleanupDir_def)
  qed
  from run x have "cs \<noteq> [] \<and> (\<forall>c\<in>set (butlast cs). failure c = None) \<and> failure (last cs) = r"
    by (intro delFunc_fail_fast) simp
  with stable show "\<exists>fuel r \<sigma>' cs.
          (\<forall>fuel'\<ge>fuel. cleanupDir fuel' storage volume dirPath \<sigma> = Some (r, \<sigma>', cs))
        \<and> cs \<noteq> [] \<and> (\<forall>c\<in>set (butlast cs). failure c = None) \<and> failure (last cs) = r"
    by (intro exI [of _ n] exI [of _ r] exI [of _ \<sigma>'] exI [of _ cs] conjI) simp_all
qed

lemma cleanupDir_mono:
  "cleanupDir fuel storage volume dirPath \<sigma> = Some x \<Longrightarrow> fuel \<le> fuel'
    \<Longrightarrow> cleanupDir fuel' storage volume dirPath \<sigma> = Some x"
  unfolding cleanupDir_def by (rule delFunc_mono)

text \<open>A directory that is gone is passed over, a directory that cannot be listed ends
  the walk with its error and the entry after it is not tried; and the leaf of the
  racy disk returns its not-found.\<close>

theorem cleanupDir_fail_fast_witness:
  "cleanupDir 2 lockedDirDisk ''.minio.sys'' ''tmp'' ()
     = Some (Some (errOther ''permission denied''), (),
         [ListDirCall ''.minio.sys'' ''tmp/'' [''gone/'', ''a'', ''locked/'', ''z''] None,
          ListDirCall ''.minio.sys'' ''tmp/gone/'' [] (Some errFileNotFound),
          DeleteFileCall ''.minio.sys'' ''tmp/a'' None,
          ListDirCall ''.minio.sys'' ''tmp/locked/'' [] (Some (errOther ''permission denied''))])
   \<and> failure (ListDirCall ''.minio.sys'' ''tmp/gone/'' [] (Some errFileNotFound)) = None
   \<and> failure (ListDirCall ''.minio.sys'' ''tmp/locked/'' [] (Some (errOther ''permission denied'')))
       = Some (errOther ''permission denied'')
   \<and> delFunc (Suc 0) lockedDirDisk ''.minio.sys'' ''tmp/locked/'' ()
       = Some (Some (errOther ''permission denied''), (),
           [ListDirCall ''.minio.sys'' ''tmp/locked/'' [] (Some (errOther ''permission denied''))])
   \<and> delFunc (Suc 0) racyDisk ''.minio.sys'' ''tmp/part.1'' ()
       = Some (Some errFileNotFound, (), [DeleteFileCall ''.minio.sys'' ''tmp/part.1'' (Some errFileNotFound)])"
proof -
  let ?cs = "[ListDirCall ''.minio.sys'' ''tmp/'' [''gone/'', ''a'', ''locked/'', ''z''] None,
          ListDirCall ''.minio.sys'' ''tmp/gone/'' [] (Some errFileNotFound),
          DeleteFileCall ''.minio.sys'' ''tmp/a'' None,
          ListDirCall ''.minio.sys'' ''tmp/locked/'' [] (Some (errOther ''permission denied''))]"
  note locked = cleanupDir_fail_fast [of lockedDirDisk "''.minio.sys''" "\<lambda>_. True" "()" "''tmp''"]
  note racy = cleanupDir_fail_fast [of racyDisk "''.minio.sys''" "\<lambda>_. True" "()" "''tmp''"]
  have run: "cleanupDir 2 lockedDirDisk ''.minio.sys'' ''tmp'' ()
     = Some (Some (errOther ''permission denied''), (), ?cs)"
    by code_simp
  have "childRel lockedDirDisk ''.minio.sys'' (\<lambda>_. True)
          \<subseteq> measure (\<lambda>p. if p = ''tmp/'' then 1 else 0)"
    unfolding childRel_def lockedDirDisk_def staticDisk_def
    by (auto simp: retainSlash_def split: if_splits)
  then have wf: "wf (childRel lockedDirDisk ''.minio.sys'' (\<lambda>_. True))"
    by (rule wf_subset [OF wf_measure])
  have pres: "preserves lockedDirDisk (\<lambda>_. True)"
    by (simp add: preserves_def)
  from locked wf pres obtain fuel r \<sigma>' cs where
    stable: "\<forall>fuel'\<ge>fuel. cleanupDir fuel' lockedDirDisk ''.minio.sys'' ''tmp'' () = Some (r, \<sigma>', cs)"
    and ff: "\<forall>c\<in>set (butlast cs). failure c = None" "failure (last cs) = r"
    by blast
  from stable have a: "cleanupDir (max fuel 2) lockedDirDisk ''.minio.sys'' ''tmp'' () = Some (r, \<sigma>', cs)"
    by simp
  from cleanupDir_mono [OF run, of "max fuel 2"]
  have b: "cleanupDir (max fuel 2) lockedDirDisk ''.minio.sys'' ''tmp'' ()
          = Some (Some (errOther ''permission denied''), (), ?cs)"
    by simp
  from a [symmetric] b have "Some (r, \<sigma>', cs) = Some (Some (errOther ''permission denied''), (), ?cs)"
    by (rule trans)
  then have "r = Some (errOther ''permission denied'')" "cs = ?cs"
    by auto
  with ff have f1: "failure (ListDirCall ''.minio.sys'' ''tmp/gone/'' [] (Some errFileNotFound)) = None"
    and f2: "failure (ListDirCall ''.minio.sys'' ''tmp/locked/'' [] (Some (errOther ''permission denied'')))
       = Some (errOther ''permission denied'')"
    by (simp_all del: failure.simps)
  have "hasSuffix ''tmp/locked/'' slashSeparator
        \<and> snd (fst (ListDir lockedDirDisk ''.minio.sys'' ''tmp/locked/'' ())) = Some (errOther ''permission denied'')"
    by code_simp
  with locked have "delFunc (Suc 0) lockedDirDisk ''.minio.sys'' ''tmp/locked/'' () =
        Some (if errOther ''permission denied'' = errFileNotFound then None else Some (errOther ''permission denied''),
              snd (ListDir lockedDirDisk ''.minio.sys'' ''tmp/locked/'' ()),
              [ListDirCall ''.minio.sys'' ''tmp/locked/'' (fst (fst (ListDir lockedDirDisk ''.minio.sys'' ''tmp/locked/'' ())))
                 (Some (errOther ''permission denied''))])"
    by blast
  then have l: "delFunc (Suc 0) lockedDirDisk ''.minio.sys'' ''tmp/locked/'' ()
       = Some (Some (errOther ''permission denied''), (),
           [ListDirCall ''.minio.sys'' ''tmp/locked/'' [] (Some (errOther ''permission denied''))])"
    by (simp add: lockedDirDisk_def staticDisk_def)
  have "\<not> hasSuffix ''tmp/part.1'' slashSeparator"
    by code_simp
  with racy have "delFunc (Suc 0) racyDisk ''.minio.sys'' ''tmp/part.1'' () =
        Some (fst (DeleteFile racyDisk ''.minio.sys'' ''tmp/part.1'' ()),
              snd (DeleteFile racyDisk ''.minio.sys'' ''tmp/part.1'' ()),
              [DeleteFileCall ''.minio.sys'' ''tmp/part.1'' (fst (DeleteFile racyDisk ''.minio.sys'' ''tmp/part.1'' ()))])"
    by blast
  then have d: "delFunc (Suc 0) racyDisk ''.minio.sys'' ''tmp/part.1'' ()
       = Some (Some errFileNotFound, (), [DeleteFileCall ''.minio.sys'' ''tmp/part.1'' (Some errFileNotFound)])"
    by (simp add: racyDisk_def staticDisk_def)
  from run f1 f2 l d show ?thesis by (intro conjI)
qed

text \<open>C5 as stated fails: DeleteFile answers not-found for a leaf that the listing
  showed, and cleanupDir returns that error to its caller.\<close>

theorem cleanupDir_absorbs_delete_not_found_counterexample:
  "cleanupDir 2 racyDisk ''.minio.sys'' ''tmp'' ()
     = Some (Some errFileNotFound, (),
         [ListDirCall ''.minio.sys'' ''tmp/'' [''part.1''] None,
          DeleteFileCall ''.minio.sys'' ''tmp/part.1'' (Some errFileNotFound)])"
  by code_simp

section \<open>The order of the entries\<close>

lemma inside_refl: "inside c c"
  by (simp add: inside_def)

lemma inside_join: "hasSuffix p slashSeparator \<Longrightarrow> inside c p \<Longrightarrow> inside c (pathJoin [p, e])"
  by (auto simp: inside_def retainSlash_dir)

lemma inside_child: "hasSuffix c slashSeparator \<Longrightarrow> inside c (pathJoin [c, e])"
  by (rule inside_join [OF _ inside_refl])

lemma delFunc_invariant:
  assumes del: "\<And>p \<sigma>. \<not> hasSuffix p slashSeparator \<Longrightarrow> Q p \<Longrightarrow> J \<sigma> \<Longrightarrow> J (snd (DeleteFile X volume p \<sigma>))"
    and lst: "\<And>p \<sigma>. hasSuffix p slashSeparator \<Longrightarrow> Q p \<Longrightarrow> J \<sigma> \<Longrightarrow> J (snd (ListDir X volume p \<sigma>))"
    and step: "\<And>p e. hasSuffix p slashSeparator \<Longrightarrow> Q p \<Longrightarrow> Q (pathJoin [p, e])"
  shows "Q c \<Longrightarrow> J \<sigma> \<Longrightarrow> delFunc fuel X volume c \<sigma> = Some (r, \<sigma>', cs) \<Longrightarrow> J \<sigma>'"
proof (induction fuel arbitrary: c \<sigma> r \<sigma>' cs)
  case 0
  then show ?case by simp
next
  case (Suc fuel)
  show ?case
  proof (cases "hasSuffix c slashSeparator")
    case False
    from del [OF False Suc.prems(1,2)] False Suc.prems(3) show ?thesis
      by (auto split: prod.splits)
  next
    case True
    obtain entries err \<sigma>1 where ld: "ListDir X volume c \<sigma> = ((entries, err), \<sigma>1)"
      by (metis surj_pair)
    with lst [OF True Suc.prems(1,2)] have j1: "J \<sigma>1" by simp
    show ?thesis
    proof (cases err)
      case (Some e)
      with True ld Suc.prems(3) j1 show ?thesis by (auto split: if_splits)
    next
      case None
      with True ld Suc.prems(3) obtain cs1 where
        loop: "delEntries (\<lambda>entry. delFunc fuel X volume (pathJoin [c, entry])) entries \<sigma>1
                 = Some (r, \<sigma>', cs1)"
        by (auto split: option.splits)
      show ?thesis
      proof (rule delEntries_preserves [where I = J, OF _ j1 loop])
        fix q \<tau> r' \<tau>' cs'
        assume "J \<tau>" "delFunc fuel X volume (pathJoin [c, q]) \<tau> = Some (r', \<tau>', cs')"
        with step [OF True Suc.prems(1)] show "J \<tau>'" by (rule Suc.IH)
      qed
    qed
  qed
qed

lemma delFunc_frame:
  assumes lst: "\<And>q \<sigma>. view k' (snd (ListDir X volume q \<sigma>)) = view k' \<sigma>"
    and del: "\<And>q \<sigma>. \<not> inside k' q \<Longrightarrow> view k' (snd (DeleteFile X volume q \<sigma>)) = view k' \<sigma>"
    and disj: "\<And>p. inside k p \<Longrightarrow> \<not> inside k' p"
    and run: "delFunc fuel X volume k \<sigma> = Some (r, \<sigma>', cs)"
  shows "view k' \<sigma>' = view k' \<sigma>"
proof (rule delFunc_invariant [where Q = "inside k" and J = "\<lambda>s. view k' s = view k' \<sigma>" and X = X,
      OF _ _ _ inside_refl _ run])
  fix p s
  assume "inside k p" "view k' s = view k' \<sigma>"
  with del [OF disj] show "view k' (snd (DeleteFile X volume p s)) = view k' \<sigma>" by simp
next
  fix p s
  assume "view k' s = view k' \<sigma>"
  with lst show "view k' (snd (ListDir X volume p s)) = view k' \<sigma>" by simp
next
  fix p e
  assume "hasSuffix p slashSeparator" "inside k p"
  then show "inside k (pathJoin [p, e])" by (rule inside_join)
qed simp

lemma delEntries_views:
  assumes "distinct xs"
    and frame: "\<And>e e' s r s' t. e \<in> set xs \<Longrightarrow> e' \<in> set xs \<Longrightarrow> e \<noteq> e' \<Longrightarrow> f e s = Some (r, s', t)
                 \<Longrightarrow> V e' s' = V e' s"
    and run: "delEntries f xs s = Some (None, s', cs)"
    and "e \<in> set xs"
  shows "\<exists>s1 s1' t. V e s1 = V e s \<and> f e s1 = Some (None, s1', t)"
  using assms
proof (induction xs arbitrary: s cs)
  case Nil
  then show ?case by simp
next
  case (Cons x xs)
  from Cons.prems(3) obtain s1 t1 cs2 where
    head: "f x s = Some (None, s1, t1)" and tail: "delEntries f xs s1 = Some (None, s', cs2)"
    by (auto split: option.splits)
  show ?case
  proof (cases "e = x")
    case True
    with head show ?thesis by blast
  next
    case False
    with Cons.prems(4) have e: "e \<in> set xs" by simp
    have "\<exists>s2 s2' t. V e s2 = V e s1 \<and> f e s2 = Some (None, s2', t)"
    proof (rule Cons.IH [OF _ _ tail e])
      show "distinct xs" using Cons.prems(1) by simp
    next
      fix a a' u r u' t
      assume "a \<in> set xs" "a' \<in> set xs" "a \<noteq> a'" "f a u = Some (r, u', t)"
      then show "V a' u' = V a' u"
        using Cons.prems(2) [of a a' u r u' t] by simp
    qed
    moreover have "V e s1 = V e s"
      using Cons.prems(2) [of x e s None s1 t1] head e False by simp
    ultimately show ?thesis by auto
  qed
qed

lemma delEntries_views_sum:
  assumes "distinct xs"
    and frame: "\<And>e e' s r s' t. e \<in> set xs \<Longrightarrow> e' \<in> set xs \<Longrightarrow> e \<noteq> e' \<Longrightarrow> f e s = Some (r, s', t)
                 \<Longrightarrow> V e' s' = V e' s"
    and run: "delEntries f xs s = Some (None, s', cs)"
    and val: "\<And>e s1 s1' t. e \<in> set xs \<Longrightarrow> V e s1 = V e s \<Longrightarrow> f e s1 = Some (None, s1', t)
                 \<Longrightarrow> mset (deletedPaths t) = g e"
  shows "mset (deletedPaths cs) = sum_list (map g xs)"
  using assms
proof (induction xs arbitrary: s cs)
  case Nil
  then show ?case by simp
next
  case (Cons x xs)
  from Cons.prems(3) obtain s1 t1 cs2 where
    head: "f x s = Some (None, s1, t1)" and tail: "delEntries f xs s1 = Some (None, s', cs2)"
    and cs: "cs = t1 @ cs2"
    by (auto split: option.splits)
  have d1: "mset (deletedPaths t1) = g x"
    using Cons.prems(4) [of x s s1 t1] head by simp
  have d2: "mset (deletedPaths cs2) = sum_list (map g xs)"
  proof (rule Cons.IH [OF _ _ tail])
    show "distinct xs" using Cons.prems(1) by simp
  next
    fix a a' u r u' t
    assume "a \<in> set xs" "a' \<in> set xs" "a \<noteq> a'" "f a u = Some (r, u', t)"
    then show "V a' u' = V a' u"
      using Cons.prems(2) [of a a' u r u' t] by simp
  next
    fix a u u' t
    assume a: "a \<in> set xs" and v: "V a u = V a s1" and fa: "f a u = Some (None, u', t)"
    from a Cons.prems(1) have "x \<noteq> a" by auto
    with Cons.prems(2) [of x a s None s1 t1] head a have "V a s1 = V a s" by simp
    with v have "V a u = V a s" by simp
    with Cons.prems(4) [of a u u' t] a fa show "mset (deletedPaths t) = g a" by simp
  qed
  from d1 d2 cs show ?case by (simp add: deletedPaths_append)
qed

lemma delEntries_views_returns:
  assumes "distinct xs"
    and frame: "\<And>e e' s r s' t. e \<in> set xs \<Longrightarrow> e' \<in> set xs \<Longrightarrow> e \<noteq> e' \<Longrightarrow> f e s = Some (r, s', t)
                 \<Longrightarrow> V e' s' = V e' s"
    and val: "\<And>e u. e \<in> set xs \<Longrightarrow> V e u = V e u0
                 \<Longrightarrow> \<exists>u' t. f e u = Some (None, u', t) \<and> mset (deletedPaths t) = g e"
  shows "\<exists>u' cs. delEntries f xs u0 = Some (None, u', cs) \<and> mset (deletedPaths cs) = sum_list (map g xs)"
  using assms
proof (induction xs arbitrary: u0)
  case Nil
  then show ?case by simp
next
  case (Cons x xs)
  from Cons.prems(3) [of x u0] obtain u1 t1 where
    head: "f x u0 = Some (None, u1, t1)" and d1: "mset (deletedPaths t1) = g x"
    by auto
  have "\<exists>u' cs. delEntries f xs u1 = Some (None, u', cs) \<and> mset (deletedPaths cs) = sum_list (map g xs)"
  proof (rule Cons.IH)
    show "distinct xs" using Cons.prems(1) by simp
  next
    fix a a' u r u' t
    assume "a \<in> set xs" "a' \<in> set xs" "a \<noteq> a'" "f a u = Some (r, u', t)"
    then show "V a' u' = V a' u"
      using Cons.prems(2) [of a a' u r u' t] by simp
  next
    fix a u
    assume a: "a \<in> set xs" and v: "V a u = V a u1"
    from a Cons.prems(1) have "x \<noteq> a" by auto
    with Cons.prems(2) [of x a u0 None u1 t1] head a have "V a u1 = V a u0" by simp
    with v have "V a u = V a u0" by simp
    with Cons.prems(3) [of a u] a
    show "\<exists>u' t. f a u = Some (None, u', t) \<and> mset (deletedPaths t) = g a" by simp
  qed
  then obtain u2 cs2 where
    tail: "delEntries f xs u1 = Some (None, u2, cs2)" and d2: "mset (deletedPaths cs2) = sum_list (map g xs)"
    by blast
  from head tail have "delEntries f (x # xs) u0 = Some (None, u2, t1 @ cs2)"
    by simp
  moreover from d1 d2 have "mset (deletedPaths (t1 @ cs2)) = sum_list (map g (x # xs))"
    by (simp add: deletedPaths_append)
  ultimately show ?case by blast
qed

lemma delEntries_permuted:
  assumes perm: "mset xs = mset ys" and dist: "distinct xs"
    and frameA: "\<And>e e' s r s' t. e \<in> set xs \<Longrightarrow> e' \<in> set xs \<Longrightarrow> e \<noteq> e' \<Longrightarrow> fA e s = Some (r, s', t)
                 \<Longrightarrow> V e' s' = V e' s"
    and frameB: "\<And>e e' s r s' t. e \<in> set xs \<Longrightarrow> e' \<in> set xs \<Longrightarrow> e \<noteq> e' \<Longrightarrow> fB e s = Some (r, s', t)
                 \<Longrightarrow> V e' s' = V e' s"
    and sub: "\<And>e s u s' t. e \<in> set xs \<Longrightarrow> V e s = V e u \<Longrightarrow> fA e s = Some (None, s', t)
                 \<Longrightarrow> \<exists>u' t'. fB e u = Some (None, u', t') \<and> mset (deletedPaths t') = mset (deletedPaths t)"
    and start: "\<And>e. e \<in> set xs \<Longrightarrow> V e s0 = V e u0"
    and run: "delEntries fA xs s0 = Some (None, s', csA)"
  shows "\<exists>u' csB. delEntries fB ys u0 = Some (None, u', csB)
           \<and> mset (deletedPaths csB) = mset (deletedPaths csA)"
proof -
  define g where "g e = mset (deletedPaths (snd (snd (the (fB e u0)))))" for e
  have sets: "set ys = set xs"
    using perm by (metis mset_eq_setD)
  have dist': "distinct ys"
    using perm dist by (metis mset_eq_imp_distinct_iff)
  have valA: "mset (deletedPaths t) = g e"
    if e: "e \<in> set xs" and v: "V e s1 = V e s0" and fa: "fA e s1 = Some (None, s1', t)" for e s1 s1' t
  proof -
    from v start [OF e] have "V e s1 = V e u0" by simp
    from sub [OF e this fa] obtain u' t' where
      "fB e u0 = Some (None, u', t')" "mset (deletedPaths t') = mset (deletedPaths t)"
      by blast
    then show ?thesis by (simp add: g_def)
  qed
  have valB: "\<exists>u' t. fB e u = Some (None, u', t) \<and> mset (deletedPaths t) = g e"
    if e': "e \<in> set ys" and v: "V e u = V e u0" for e u
  proof -
    from e' sets have e: "e \<in> set xs" by simp
    have "\<exists>s1 s1' t. V e s1 = V e s0 \<and> fA e s1 = Some (None, s1', t)"
    proof (rule delEntries_views [where f = fA and V = V, OF dist _ run e])
      fix a a' s r s' t
      assume "a \<in> set xs" "a' \<in> set xs" "a \<noteq> a'" "fA a s = Some (r, s', t)"
      then show "V a' s' = V a' s" by (rule frameA)
    qed
    then obtain s1 s1' t1 where
      v1: "V e s1 = V e s0" and fa: "fA e s1 = Some (None, s1', t1)"
      by blast
    from v1 start [OF e] v have "V e s1 = V e u" by simp
    from sub [OF e this fa] valA [OF e v1 fa] show ?thesis by auto
  qed
  have "mset (deletedPaths csA) = sum_list (map g xs)"
  proof (rule delEntries_views_sum [where f = fA and V = V, OF dist _ run])
    fix a a' s r s' t
    assume "a \<in> set xs" "a' \<in> set xs" "a \<noteq> a'" "fA a s = Some (r, s', t)"
    then show "V a' s' = V a' s" by (rule frameA)
  next
    fix a s1 s1' t
    assume "a \<in> set xs" "V a s1 = V a s0" "fA a s1 = Some (None, s1', t)"
    then show "mset (deletedPaths t) = g a" by (rule valA)
  qed
  moreover have "\<exists>u' cs. delEntries fB ys u0 = Some (None, u', cs)
                    \<and> mset (deletedPaths cs) = sum_list (map g ys)"
  proof (rule delEntries_views_returns [where f = fB and V = V, OF dist'])
    fix e e' s r s' t
    assume "e \<in> set ys" "e' \<in> set ys" "e \<noteq> e'" "fB e s = Some (r, s', t)"
    with sets show "V e' s' = V e' s" using frameB [of e e' s r s' t] by simp
  next
    fix a u
    assume "a \<in> set ys" "V a u = V a u0"
    then show "\<exists>u' t. fB a u = Some (None, u', t) \<and> mset (deletedPaths t) = g a" by (rule valB)
  qed
  moreover have "sum_list (map g xs) = sum_list (map g ys)"
    using perm by (rule sum_list_map_mset_cong)
  ultimately show ?thesis by auto
qed

lemma delFunc_permuted:
  assumes tree: "treeLike A volume view" and perm: "permutedListing A B"
  shows "view c \<sigma> = view c \<tau> \<Longrightarrow> delFunc fuel A volume c \<sigma> = Some (None, \<sigma>', cs)
    \<Longrightarrow> \<exists>\<tau>' cs'. delFunc fuel B volume c \<tau> = Some (None, \<tau>', cs')
          \<and> mset (deletedPaths cs') = mset (deletedPaths cs)"
proof (induction fuel arbitrary: c \<sigma> \<tau> \<sigma>' cs)
  case 0
  then show ?case by simp
next
  case (Suc fuel)
  from tree have
    views: "\<And>k q s u. inside k q \<Longrightarrow> view k s = view k u \<Longrightarrow> view q s = view q u"
    and delA: "\<And>k q s u. inside k q \<Longrightarrow> view k s = view k u \<Longrightarrow> \<not> hasSuffix q slashSeparator
                 \<Longrightarrow> fst (DeleteFile A volume q s) = fst (DeleteFile A volume q u)"
    and lstA: "\<And>k q s u. inside k q \<Longrightarrow> view k s = view k u \<Longrightarrow> hasSuffix q slashSeparator
                 \<Longrightarrow> fst (ListDir A volume q s) = fst (ListDir A volume q u)"
    and quietA: "\<And>k q s. view k (snd (ListDir A volume q s)) = view k s"
    and farA: "\<And>k q s. \<not> inside k q \<Longrightarrow> view k (snd (DeleteFile A volume q s)) = view k s"
    and ents: "\<And>q s entries s'. hasSuffix q slashSeparator \<Longrightarrow> ListDir A volume q s = ((entries, None), s')
                 \<Longrightarrow> distinct entries \<and>
                   (\<forall>e\<in>set entries. \<forall>e'\<in>set entries. e \<noteq> e' \<longrightarrow>
                      (\<forall>p. inside (pathJoin [q, e]) p \<longrightarrow> \<not> inside (pathJoin [q, e']) p))"
    unfolding treeLike_def by blast+
  from perm have
    delB: "\<And>q s. DeleteFile B volume q s = DeleteFile A volume q s"
    and stB: "\<And>q s. snd (ListDir B volume q s) = snd (ListDir A volume q s)"
    and errB: "\<And>q s. snd (fst (ListDir B volume q s)) = snd (fst (ListDir A volume q s))"
    and entB: "\<And>q s. mset (fst (fst (ListDir B volume q s))) = mset (fst (fst (ListDir A volume q s)))"
    unfolding permutedListing_def by blast+
  have quietB: "view k (snd (ListDir B volume q s)) = view k s" for k q s
    by (simp add: stB quietA)
  have farB: "view k (snd (DeleteFile B volume q s)) = view k s" if "\<not> inside k q" for k q s
    using that by (simp add: delB farA)
  show ?case
  proof (cases "hasSuffix c slashSeparator")
    case False
    have "fst (DeleteFile B volume c \<tau>) = fst (DeleteFile A volume c \<sigma>)"
      using delA [OF inside_refl Suc.prems(1) False] by (simp add: delB)
    moreover from False Suc.prems(2) have "fst (DeleteFile A volume c \<sigma>) = None"
      and "cs = [DeleteFileCall volume c None]"
      by (auto split: prod.splits)
    ultimately show ?thesis
      using False by (simp add: case_prod_beta)
  next
    case True
    obtain esA eA \<sigma>1 where lA: "ListDir A volume c \<sigma> = ((esA, eA), \<sigma>1)"
      by (metis surj_pair)
    obtain esB eB \<tau>1 where lB: "ListDir B volume c \<tau> = ((esB, eB), \<tau>1)"
      by (metis surj_pair)
    have same: "fst (ListDir A volume c \<tau>) = (esA, eA)"
      using lstA [OF inside_refl Suc.prems(1) True] lA by simp
    have e: "eB = eA"
      using errB [of c \<tau>] lB same by simp
    have p: "mset esA = mset esB"
      using entB [of c \<tau>] lB same by simp
    show ?thesis
    proof (cases eA)
      case (Some x)
      with True lA Suc.prems(2) have "x = errFileNotFound" "deletedPaths cs = []"
        by (auto split: if_splits)
      with True lB e Some show ?thesis by simp
    next
      case None
      from True lA None Suc.prems(2) obtain csA where
        loop: "delEntries (\<lambda>entry. delFunc fuel A volume (pathJoin [c, entry])) esA \<sigma>1
                 = Some (None, \<sigma>', csA)"
        and cs: "cs = ListDirCall volume c esA None # csA"
        by (auto split: option.splits)
      from ents [OF True lA [unfolded None]] have dist: "distinct esA"
        and apart: "\<And>a a' p. a \<in> set esA \<Longrightarrow> a' \<in> set esA \<Longrightarrow> a \<noteq> a'
                      \<Longrightarrow> inside (pathJoin [c, a]) p \<Longrightarrow> \<not> inside (pathJoin [c, a']) p"
        by blast+
      have s1: "view k \<sigma>1 = view k \<sigma>" for k
        using quietA [of k c \<sigma>] lA by simp
      have t1: "view k \<tau>1 = view k \<tau>" for k
        using quietB [of k c \<tau>] lB by simp
      have "\<exists>\<tau>' csB. delEntries (\<lambda>entry. delFunc fuel B volume (pathJoin [c, entry])) esB \<tau>1
                 = Some (None, \<tau>', csB) \<and> mset (deletedPaths csB) = mset (deletedPaths csA)"
      proof (rule delEntries_permuted [where V = "\<lambda>a. view (pathJoin [c, a])", OF p dist _ _ _ _ loop])
        fix a a' s r s' t
        assume a: "a \<in> set esA" "a' \<in> set esA" "a \<noteq> a'"
          and run: "delFunc fuel A volume (pathJoin [c, a]) s = Some (r, s', t)"
        show "view (pathJoin [c, a']) s' = view (pathJoin [c, a']) s"
          by (rule delFunc_frame [where X = A, OF quietA farA apart [OF a] run])
      next
        fix a a' s r s' t
        assume a: "a \<in> set esA" "a' \<in> set esA" "a \<noteq> a'"
          and run: "delFunc fuel B volume (pathJoin [c, a]) s = Some (r, s', t)"
        show "view (pathJoin [c, a']) s' = view (pathJoin [c, a']) s"
          by (rule delFunc_frame [where X = B, OF quietB farB apart [OF a] run])
      next
        fix a s u s' t
        assume "view (pathJoin [c, a]) s = view (pathJoin [c, a]) u"
          and "delFunc fuel A volume (pathJoin [c, a]) s = Some (None, s', t)"
        then show "\<exists>u' t'. delFunc fuel B volume (pathJoin [c, a]) u = Some (None, u', t')
                     \<and> mset (deletedPaths t') = mset (deletedPaths t)"
          by (rule Suc.IH)
      next
        fix a
        have "view (pathJoin [c, a]) \<sigma> = view (pathJoin [c, a]) \<tau>"
          by (rule views [OF inside_child [OF True] Suc.prems(1)])
        then show "view (pathJoin [c, a]) \<sigma>1 = view (pathJoin [c, a]) \<tau>1"
          by (simp add: s1 t1)
      qed
      then obtain \<tau>' csB where
        loopB: "delEntries (\<lambda>entry. delFunc fuel B volume (pathJoin [c, entry])) esB \<tau>1
                 = Some (None, \<tau>', csB)"
        and d: "mset (deletedPaths csB) = mset (deletedPaths csA)"
        by blast
      from True lB e None loopB
      have "delFunc (Suc fuel) B volume c \<tau>
              = Some (None, \<tau>', ListDirCall volume c esB None # csB)"
        by simp
      moreover from d cs
      have "mset (deletedPaths (ListDirCall volume c esB None # csB)) = mset (deletedPaths cs)"
        by simp
      ultimately show ?thesis by blast
    qed
  qed
qed

text \<open>
  C7. Let a disk behave as a directory tree on the volume, and let a second disk be
  the same disk with the entries of every listing permuted. When cleanupDir succeeds on
  the first from a state, it succeeds on the second from the same state within the same
  depth, and the deleted leaf paths are the same, as a set and with the same
  multiplicities. The deletions take effect on both disks.
\<close>

theorem cleanupDir_order_irrelevant:
  assumes "treeLike A volume view" and "permutedListing A B"
    and "cleanupDir fuel A volume dirPath \<sigma> = Some (None, \<sigma>', cs)"
  shows "\<exists>\<tau>' cs'. cleanupDir fuel B volume dirPath \<sigma> = Some (None, \<tau>', cs')
           \<and> mset (deletedPaths cs') = mset (deletedPaths cs)
           \<and> set (deletedPaths cs') = set (deletedPaths cs)"
proof -
  from delFunc_permuted [OF assms(1,2) refl assms(3) [unfolded cleanupDir_def]]
  obtain \<tau>' cs' where
    run: "cleanupDir fuel B volume dirPath \<sigma> = Some (None, \<tau>', cs')"
    and d: "mset (deletedPaths cs') = mset (deletedPaths cs)"
    unfolding cleanupDir_def by blast
  from d have "set (deletedPaths cs') = set (deletedPaths cs)"
    by (rule mset_eq_setD)
  with run d show ?thesis by blast
qed

lemma hasSuffix_slash: "hasSuffix s slashSeparator \<longleftrightarrow> s \<noteq> [] \<and> last s = CHR ''/''"
proof (cases s rule: rev_cases)
  case Nil
  then show ?thesis by (simp add: hasSuffix_def slashSeparator_def)
next
  case (snoc ys y)
  then show ?thesis by (auto simp: hasSuffix_def slashSeparator_def)
qed

lemma inside_trans: "inside c q \<Longrightarrow> inside q f \<Longrightarrow> inside c f"
  by (auto simp: inside_def split: if_splits)

lemma filter_removeAll_other: "\<not> P x \<Longrightarrow> filter P (removeAll x xs) = filter P xs"
  by (induction xs) auto

lemma memView_narrow:
  assumes "\<And>v f. R (v, f) \<Longrightarrow> v = volume \<and> inside c f"
  shows "filter R (files \<sigma>) = filter R (memView volume c \<sigma>)"
proof -
  have "(\<lambda>x. (case x of (v, f) \<Rightarrow> v = volume \<and> inside c f) \<and> R x) = R"
    using assms by auto
  then show ?thesis by (simp add: memView_def)
qed

lemma memDisk_views:
  assumes "inside c q" and "memView volume c \<sigma> = memView volume c \<tau>"
  shows "memView volume q \<sigma> = memView volume q \<tau>"
proof -
  let ?R = "\<lambda>(v, f). v = volume \<and> inside q f"
  have narrow: "filter ?R (files s) = filter ?R (memView volume c s)" for s
    by (rule memView_narrow) (auto intro: inside_trans [OF assms(1)])
  have "memView volume q \<sigma> = filter ?R (memView volume c \<sigma>)"
    unfolding memView_def [of volume q] by (rule narrow)
  also have "\<dots> = filter ?R (memView volume c \<tau>)"
    using assms(2) by simp
  also have "\<dots> = memView volume q \<tau>"
    unfolding memView_def [of volume q] by (rule narrow [symmetric])
  finally show ?thesis .
qed

lemma memDisk_delete_answer:
  assumes "inside c q" and "memView volume c \<sigma> = memView volume c \<tau>"
  shows "fst (DeleteFile memDisk volume q \<sigma>) = fst (DeleteFile memDisk volume q \<tau>)"
proof -
  have "(volume, q) \<in> set (files s) \<longleftrightarrow> (volume, q) \<in> set (memView volume c s)" for s
    using assms(1) by (simp add: memView_def)
  with assms(2) have "(volume, q) \<in> set (files \<sigma>) \<longleftrightarrow> (volume, q) \<in> set (files \<tau>)"
    by simp
  then show ?thesis by (simp add: memDisk_def)
qed

lemma memDisk_list_answer:
  assumes "inside c q" and "hasSuffix q slashSeparator"
    and "memView volume c \<sigma> = memView volume c \<tau>"
  shows "fst (ListDir memDisk volume q \<sigma>) = fst (ListDir memDisk volume q \<tau>)"
proof -
  let ?R = "\<lambda>(v, f). v = volume \<and> prefix q f \<and> f \<noteq> q"
  have narrow: "filter ?R (files s) = filter ?R (memView volume c s)" for s
  proof (rule memView_narrow)
    fix v f assume "?R (v, f)"
    then have "v = volume" "inside q f"
      using assms(2) by (simp_all add: inside_def)
    with assms(1) show "v = volume \<and> inside c f"
      by (auto intro: inside_trans)
  qed
  from assms(3) have "filter ?R (files \<sigma>) = filter ?R (files \<tau>)"
    by (simp add: narrow)
  then show ?thesis
    by (simp add: memDisk_def memListDir_def Let_def)
qed

lemma memDisk_list_quiet: "memView volume c (snd (ListDir memDisk volume' q \<sigma>)) = memView volume c \<sigma>"
  by (simp add: memDisk_def memListDir_def Let_def)

lemma memDisk_delete_far:
  assumes "\<not> inside c q"
  shows "memView volume c (snd (DeleteFile memDisk volume q \<sigma>)) = memView volume c \<sigma>"
  using assms by (simp add: memDisk_def memView_def filter_removeAll_other)

lemma firstSegment_slash: "CHR ''/'' \<notin> set (butlast (firstSegment s))"
  by (induction s) auto

lemma prefix_slash_inner:
  assumes "prefix e e'" "e \<noteq> e'" "e \<noteq> []" "last e = CHR ''/''"
  shows "CHR ''/'' \<in> set (butlast e')"
proof -
  from assms(1,2) obtain r where r: "e' = e @ r" "r \<noteq> []"
    by (auto simp: prefix_def)
  then have "butlast e' = e @ butlast r"
    by (simp add: butlast_append)
  moreover have "last e \<in> set e"
    using assms(3) by simp
  ultimately show ?thesis
    using assms(4) by simp
qed

lemma segments_apart:
  assumes q: "hasSuffix q slashSeparator"
    and e: "e \<noteq> []" "CHR ''/'' \<notin> set (butlast e)"
    and e': "e' \<noteq> []" "CHR ''/'' \<notin> set (butlast e')"
    and ne: "e \<noteq> e'"
    and p: "inside (pathJoin [q, e]) p"
  shows "\<not> inside (pathJoin [q, e']) p"
proof
  assume p': "inside (pathJoin [q, e']) p"
  have j: "pathJoin [q, e] = q @ e" "pathJoin [q, e'] = q @ e'"
    using q by (simp_all add: retainSlash_dir)
  have dir: "hasSuffix (q @ x) slashSeparator \<longleftrightarrow> last x = CHR ''/''" if "x \<noteq> []" for x
    using that by (simp add: hasSuffix_slash)
  consider (ll) "last e \<noteq> CHR ''/''" "last e' \<noteq> CHR ''/''"
    | (dl) "last e = CHR ''/''" "last e' \<noteq> CHR ''/''"
    | (ld) "last e \<noteq> CHR ''/''" "last e' = CHR ''/''"
    | (dd) "last e = CHR ''/''" "last e' = CHR ''/''"
    by blast
  then show False
  proof cases
    case ll
    with p p' j dir [OF e(1)] dir [OF e'(1)] have "q @ e = q @ e'"
      by (simp add: inside_def)
    with ne show False by simp
  next
    case dl
    with p p' j dir [OF e(1)] dir [OF e'(1)] have "prefix (q @ e) (q @ e')"
      by (simp add: inside_def)
    then have "prefix e e'" by simp
    from prefix_slash_inner [OF this ne e(1) dl(1)] e'(2) show False by simp
  next
    case ld
    with p p' j dir [OF e(1)] dir [OF e'(1)] have "prefix (q @ e') (q @ e)"
      by (simp add: inside_def)
    then have "prefix e' e" by simp
    from prefix_slash_inner [OF this ne [symmetric] e'(1) ld(2)] e(2) show False by simp
  next
    case dd
    with p p' j dir [OF e(1)] dir [OF e'(1)] have "prefix (q @ e) p" "prefix (q @ e') p"
      by (simp_all add: inside_def)
    then have "prefix (q @ e) (q @ e') \<or> prefix (q @ e') (q @ e)"
      by (rule prefix_same_cases)
    then have "prefix e e' \<or> prefix e' e" by simp
    then show False
    proof
      assume "prefix e e'"
      from prefix_slash_inner [OF this ne e(1) dd(1)] e'(2) show False by simp
    next
      assume "prefix e' e"
      from prefix_slash_inner [OF this ne [symmetric] e'(1) dd(2)] e(2) show False by simp
    qed
  qed
qed

lemma memDisk_entries:
  assumes q: "hasSuffix q slashSeparator"
    and ld: "ListDir memDisk volume q \<sigma> = ((entries, None), \<sigma>')"
  shows "distinct entries \<and>
        (\<forall>e\<in>set entries. \<forall>e'\<in>set entries. e \<noteq> e' \<longrightarrow>
           (\<forall>p. inside (pathJoin [q, e]) p \<longrightarrow> \<not> inside (pathJoin [q, e']) p))"
proof -
  from ld have ml: "memListDir volume q \<sigma> = ((entries, None), \<sigma>')"
    by (simp add: memDisk_def)
  then have "distinct entries"
    by (auto simp: memListDir_def Let_def split: if_splits)
  moreover have shape: "e \<noteq> [] \<and> CHR ''/'' \<notin> set (butlast e)" if "e \<in> set entries" for e
  proof -
    from memListDir_entry [OF ml that] obtain rest where "rest \<noteq> []" "e = firstSegment rest"
      by blast
    then show ?thesis
      by (simp add: firstSegment_nonempty firstSegment_slash)
  qed
  have "\<not> inside (pathJoin [q, e']) p"
    if "e \<in> set entries" "e' \<in> set entries" "e \<noteq> e'" "inside (pathJoin [q, e]) p" for e e' p
    using shape [OF that(1)] shape [OF that(2)] that(3,4) q by (intro segments_apart [of q e e' p]) simp_all
  ultimately show ?thesis by blast
qed

lemma memDisk_treeLike: "treeLike memDisk volume (memView volume)"
  unfolding treeLike_def
proof (intro conjI allI impI)
  fix c q \<sigma> \<tau>
  assume a: "inside c q \<and> memView volume c \<sigma> = memView volume c \<tau>"
  then show "memView volume q \<sigma> = memView volume q \<tau>"
    by (intro memDisk_views [of c q]) simp_all
  from a show "fst (DeleteFile memDisk volume q \<sigma>) = fst (DeleteFile memDisk volume q \<tau>)"
    by (intro memDisk_delete_answer [of c q]) simp_all
  assume "hasSuffix q slashSeparator"
  with a show "fst (ListDir memDisk volume q \<sigma>) = fst (ListDir memDisk volume q \<tau>)"
    by (intro memDisk_list_answer [of c q]) simp_all
next
  fix c q \<sigma>
  show "memView volume c (snd (ListDir memDisk volume q \<sigma>)) = memView volume c \<sigma>"
    by (rule memDisk_list_quiet)
next
  fix c q \<sigma>
  assume "\<not> inside c q"
  then show "memView volume c (snd (DeleteFile memDisk volume q \<sigma>)) = memView volume c \<sigma>"
    by (rule memDisk_delete_far)
next
  fix q \<sigma> entries \<sigma>'
  assume a: "hasSuffix q slashSeparator \<and> ListDir memDisk volume q \<sigma> = ((entries, None), \<sigma>')"
  then have "hasSuffix q slashSeparator" "ListDir memDisk volume q \<sigma> = ((entries, None), \<sigma>')"
    by simp_all
  then have "distinct entries \<and>
        (\<forall>e\<in>set entries. \<forall>e'\<in>set entries. e \<noteq> e' \<longrightarrow>
           (\<forall>p. inside (pathJoin [q, e]) p \<longrightarrow> \<not> inside (pathJoin [q, e']) p))"
    by (rule memDisk_entries)
  then show "distinct entries"
    and "\<forall>e\<in>set entries. \<forall>e'\<in>set entries. e \<noteq> e' \<longrightarrow>
           (\<forall>p. inside (pathJoin [q, e]) p \<longrightarrow> \<not> inside (pathJoin [q, e']) p)"
    by simp_all
qed

lemma reversedDisk_permuted: "permutedListing memDisk reversedDisk"
  unfolding permutedListing_def reversedDisk_def by (simp add: memDisk_def case_prod_beta)

text \<open>The in-memory disk is such a tree, whatever it holds. With every listing reversed,
  the cleanup of a tree with two levels deletes the same three leaves in another order.\<close>

theorem cleanupDir_order_irrelevant_witness:
  "treeLike memDisk ''.minio.sys'' (memView ''.minio.sys'')
   \<and> permutedListing memDisk reversedDisk
   \<and> cleanupDir 3 memDisk ''.minio.sys'' ''a''
        \<lparr>vols = [''.minio.sys''],
          files = [(''.minio.sys'', ''a/b''), (''.minio.sys'', ''a/c/d''), (''.minio.sys'', ''a/c/e'')]\<rparr>
       = Some (None, \<lparr>vols = [''.minio.sys''], files = []\<rparr>,
           [ListDirCall ''.minio.sys'' ''a/'' [''b'', ''c/''] None,
            DeleteFileCall ''.minio.sys'' ''a/b'' None,
            ListDirCall ''.minio.sys'' ''a/c/'' [''d'', ''e''] None,
            DeleteFileCall ''.minio.sys'' ''a/c/d'' None,
            DeleteFileCall ''.minio.sys'' ''a/c/e'' None])
   \<and> (\<exists>\<tau>' cs'. cleanupDir 3 reversedDisk ''.minio.sys'' ''a''
          \<lparr>vols = [''.minio.sys''],
            files = [(''.minio.sys'', ''a/b''), (''.minio.sys'', ''a/c/d''), (''.minio.sys'', ''a/c/e'')]\<rparr>
          = Some (None, \<tau>', cs')
         \<and> set (deletedPaths cs') = {''a/b'', ''a/c/d'', ''a/c/e''})"
proof -
  have tree: "treeLike memDisk ''.minio.sys'' (memView ''.minio.sys'')"
    by (rule memDisk_treeLike)
  have perm: "permutedListing memDisk reversedDisk"
    by (rule reversedDisk_permuted)
  have run: "cleanupDir 3 memDisk ''.minio.sys'' ''a''
        \<lparr>vols = [''.minio.sys''],
          files = [(''.minio.sys'', ''a/b''), (''.minio.sys'', ''a/c/d''), (''.minio.sys'', ''a/c/e'')]\<rparr>
       = Some (None, \<lparr>vols = [''.minio.sys''], files = []\<rparr>,
           [ListDirCall ''.minio.sys'' ''a/'' [''b'', ''c/''] None,
            DeleteFileCall ''.minio.sys'' ''a/b'' None,
            ListDirCall ''.minio.sys'' ''a/c/'' [''d'', ''e''] None,
            DeleteFileCall ''.minio.sys'' ''a/c/d'' None,
            DeleteFileCall ''.minio.sys'' ''a/c/e'' None])"
    by code_simp
  from cleanupDir_order_irrelevant [OF tree perm run]
  have "\<exists>\<tau>' cs'. cleanupDir 3 reversedDisk ''.minio.sys'' ''a''
          \<lparr>vols = [''.minio.sys''],
            files = [(''.minio.sys'', ''a/b''), (''.minio.sys'', ''a/c/d''), (''.minio.sys'', ''a/c/e'')]\<rparr>
          = Some (None, \<tau>', cs')
         \<and> set (deletedPaths cs') = {''a/b'', ''a/c/d'', ''a/c/e''}"
    by auto
  with tree perm run show ?thesis by (intro conjI)
qed

end
